theory Spec2Isabelle
  imports Main "HOL-Library.AList" "HOL-Library.Sublist"
begin

section \<open>JavaScript strings\<close>

text \<open>
  Text that the bot formats, trims and measures is a JavaScript string: a sequence of
  UTF-16 code units, and \<open>length\<close> counts code units.  Such a string is modelled as the
  list of its code units (\<open>nat\<close>), so that the non-ASCII characters the formatter looks
  for are single elements.  Keys, action names and opaque messages stay \<open>string\<close>.
\<close>

type_synonym jsstring = "nat list"

text \<open>The line terminators of ECMAScript (LF, CR, LS, PS), which is what \<open>^\<close> looks
  at under the \<open>m\<close> flag, and its white space (\<open>\s\<close> and \<open>trim\<close>): TAB, VT, FF, SP,
  NBSP, the \<open>Zs\<close> characters, the BOM and the line terminators.\<close>

definition isLineTerminator :: "nat \<Rightarrow> bool" where
  "isLineTerminator c = (c = 10 \<or> c = 13 \<or> c = 8232 \<or> c = 8233)"

definition isWhiteSpace :: "nat \<Rightarrow> bool" where
  "isWhiteSpace c =
     (c = 9 \<or> c = 11 \<or> c = 12 \<or> c = 32 \<or> c = 160 \<or> c = 5760
      \<or> (8192 \<le> c \<and> c \<le> 8202) \<or> c = 8239 \<or> c = 8287 \<or> c = 12288 \<or> c = 65279
      \<or> isLineTerminator c)"

text \<open>\<open>String.prototype.trim\<close>\<close>

definition trim :: "jsstring \<Rightarrow> jsstring" where
  "trim s = rev (dropWhile isWhiteSpace (rev (dropWhile isWhiteSpace s)))"

text \<open>\<open>Array.prototype.join(sep)\<close>\<close>

fun joinWith :: "'a list \<Rightarrow> 'a list list \<Rightarrow> 'a list" where
  "joinWith sep [] = []"
| "joinWith sep [x] = x"
| "joinWith sep (x # y # ys) = x @ sep @ joinWith sep (y # ys)"

text \<open>\<open>String.prototype.split(sep)\<close> for a non-empty separator: the pieces between the
  leftmost, non-overlapping occurrences of \<open>sep\<close>; \<open>acc\<close> is the piece being read.\<close>

function splitAcc :: "'a list \<Rightarrow> 'a list \<Rightarrow> 'a list \<Rightarrow> 'a list list" where
  "splitAcc sep acc [] = [acc]"
| "splitAcc sep acc (c # cs) =
     (if sep \<noteq> [] \<and> prefix sep (c # cs)
      then acc # splitAcc sep [] (drop (length sep) (c # cs))
      else splitAcc sep (acc @ [c]) cs)"
  by pat_completeness auto
termination
  by (relation "measure (\<lambda>(sep, acc, s). length s)") auto

definition split :: "'a list \<Rightarrow> 'a list \<Rightarrow> 'a list list" where
  "split sep s = splitAcc sep [] s"

section \<open>Rate limiter (RateLimitService)\<close>

text \<open>
  Timestamps and durations are milliseconds (\<open>int\<close>), counters are naturals.  An
  optional numeric field of the source (\<open>blockDurationMs?\<close>, \<open>blockedUntil?\<close>) is an
  \<open>int option\<close>; the source tests such a field by truthiness, so a field that is
  present and \<open>0\<close> counts as absent in every \<open>if (x)\<close> and \<open>x && ...\<close>.
  A number that the limiter computes from a property its rule value does not have
  (\<open>now + undefined\<close>, \<open>undefined - count\<close>) is \<open>NaN\<close>.
\<close>

record RateLimitRule =
  maxRequests :: nat
  windowMs :: int
  blockDurationMs :: "int option"

datatype jsnumber = Num int | NaN

record UserLimitInfo =
  count :: nat
  resetTime :: jsnumber
  blockedUntil :: "int option"
  violations :: nat

text \<open>The \<open>reason\<close> string of a rejection, kept structured: the source formats the
  block time, respectively the rule's maximum and window, into a sentence.\<close>

datatype reason = BlockedUntilReason int | LimitExceededReason nat int

record CheckResult =
  allowed :: bool
  remaining :: jsnumber
  resultResetTime :: jsnumber
  resultBlockedUntil :: "int option"
  resultReason :: "reason option"

text \<open>
  The \<open>rules\<close> field is a plain object used as a table.  It has its own properties, one
  rule per action name, and a prototype: the class initialises the field with an object
  literal, whose prototype is \<open>Object.prototype\<close> (\<open>prototypeRule = None\<close>), and the
  assignment \<open>this.rules['__proto__'] = rule\<close> replaces the prototype by the rule object
  (\<open>prototypeRule = Some rule\<close>), itself a plain object.
\<close>

record RulesObject =
  ownRules :: "(string \<times> RateLimitRule) list"
  prototypeRule :: "RateLimitRule option"

text \<open>The service: the \<open>limits\<close> map in insertion order (a JS \<open>Map\<close>: \<open>set\<close> on a
  present key keeps its place, \<open>delete\<close> removes it), the \<open>rules\<close> object and the VIP
  set.\<close>

record RateLimitService =
  limits :: "(string \<times> UserLimitInfo) list"
  rules :: RulesObject
  vipUsers :: "int set"

datatype js_error = TypeError

definition truthy :: "int option \<Rightarrow> bool" where
  "truthy x = (case x of None \<Rightarrow> False | Some v \<Rightarrow> v \<noteq> 0)"

text \<open>Template literal \<open>`${userId}`\<close> for an integer user id: its decimal digits, with
  a leading minus sign when negative.\<close>

definition digitChar :: "nat \<Rightarrow> char" where
  "digitChar d = ''0123456789'' ! d"

fun string_of_nat :: "nat \<Rightarrow> string" where
  "string_of_nat n =
     (if n < 10 then [digitChar n]
      else string_of_nat (n div 10) @ [digitChar (n mod 10)])"

declare string_of_nat.simps [simp del]

definition string_of_int :: "int \<Rightarrow> string" where
  "string_of_int i =
     (if i < 0 then CHR ''-'' # string_of_nat (nat (- i)) else string_of_nat (nat i))"

text \<open>\<open>`${userId}:${action}`\<close>\<close>

definition limitKey :: "int \<Rightarrow> string \<Rightarrow> string" where
  "limitKey userId action = string_of_int userId @ '':'' @ action"

definition defaultRules :: RulesObject where
  "defaultRules =
    \<lparr>ownRules =
      [(''text_message'',
          \<lparr>maxRequests = 30, windowMs = 60000, blockDurationMs = Some 300000\<rparr>),
       (''image_processing'',
          \<lparr>maxRequests = 10, windowMs = 300000, blockDurationMs = Some 600000\<rparr>),
       (''settings_change'',
          \<lparr>maxRequests = 5, windowMs = 60000, blockDurationMs = Some 60000\<rparr>),
       (''command'',
          \<lparr>maxRequests = 20, windowMs = 60000, blockDurationMs = None\<rparr>),
       (''global'',
          \<lparr>maxRequests = 50, windowMs = 3600000, blockDurationMs = Some 1800000\<rparr>)],
     prototypeRule = None\<rparr>"

definition newRateLimitService :: RateLimitService where
  "newRateLimitService = \<lparr>limits = [], rules = defaultRules, vipUsers = {}\<rparr>"

text \<open>
  What a property read on the \<open>rules\<close> object can give: a rule object, a number (a
  property of a rule object that stands as prototype), a built-in of \<open>Object.prototype\<close>
  (one of its functions, or that prototype itself), or \<open>undefined\<close>.
\<close>

datatype js_value = RuleObject RateLimitRule | NumberValue int | BuiltIn | Undefined

text \<open>The property names of \<open>Object.prototype\<close>, which every plain object inherits.\<close>

definition objectPrototypeNames :: "string list" where
  "objectPrototypeNames =
     [''constructor'', ''__defineGetter__'', ''__defineSetter__'', ''hasOwnProperty'',
      ''__lookupGetter__'', ''__lookupSetter__'', ''isPrototypeOf'',
      ''propertyIsEnumerable'', ''toString'', ''valueOf'', ''__proto__'',
      ''toLocaleString'']"

text \<open>
  \<open>rules[name]\<close>: an own property first; then the properties of a rule object that
  stands as prototype; then \<open>Object.prototype\<close>, whose accessor \<open>__proto__\<close> answers the
  prototype of \<open>rules\<close>.
\<close>

definition getProperty :: "RulesObject \<Rightarrow> string \<Rightarrow> js_value" where
  "getProperty obj name =
     (case map_of (ownRules obj) name of
        Some r \<Rightarrow> RuleObject r
      | None \<Rightarrow>
         (case prototypeRule obj of
            None \<Rightarrow> if name \<in> set objectPrototypeNames then BuiltIn else Undefined
          | Some p \<Rightarrow>
             if name = ''maxRequests'' then NumberValue (int (maxRequests p))
             else if name = ''windowMs'' then NumberValue (windowMs p)
             else if name = ''blockDurationMs'' \<and> blockDurationMs p \<noteq> None
               then NumberValue (the (blockDurationMs p))
             else if name = ''__proto__'' then RuleObject p
             else if name \<in> set objectPrototypeNames then BuiltIn
             else Undefined))"

definition truthyValue :: "js_value \<Rightarrow> bool" where
  "truthyValue v =
     (case v of RuleObject r \<Rightarrow> True | NumberValue n \<Rightarrow> n \<noteq> 0 | BuiltIn \<Rightarrow> True
      | Undefined \<Rightarrow> False)"

text \<open>\<open>this.rules[action] || this.rules.global\<close>\<close>

definition ruleFor :: "RateLimitService \<Rightarrow> string \<Rightarrow> js_value" where
  "ruleFor svc action =
     (if truthyValue (getProperty (rules svc) action) then getProperty (rules svc) action
      else getProperty (rules svc) ''global'')"

text \<open>\<open>rule.maxRequests\<close>, \<open>rule.windowMs\<close> and \<open>rule.blockDurationMs\<close> for a rule
  value that is not \<open>undefined\<close>: a number and a built-in have none of the three
  (\<open>None\<close> is \<open>undefined\<close>).\<close>

definition maxRequestsOf :: "js_value \<Rightarrow> nat option" where
  "maxRequestsOf rule = (case rule of RuleObject r \<Rightarrow> Some (maxRequests r) | _ \<Rightarrow> None)"

definition windowMsOf :: "js_value \<Rightarrow> int option" where
  "windowMsOf rule = (case rule of RuleObject r \<Rightarrow> Some (windowMs r) | _ \<Rightarrow> None)"

definition blockDurationMsOf :: "js_value \<Rightarrow> int option" where
  "blockDurationMsOf rule = (case rule of RuleObject r \<Rightarrow> blockDurationMs r | _ \<Rightarrow> None)"

text \<open>The arithmetic of \<open>checkLimit\<close> on such reads: \<open>now + x\<close>, \<open>now > t\<close>,
  \<open>count >= x\<close> and \<open>x - count\<close>.  A comparison with \<open>NaN\<close> or \<open>undefined\<close> is
  false.\<close>

definition plusMs :: "int \<Rightarrow> int option \<Rightarrow> jsnumber" where
  "plusMs now x = (case x of Some v \<Rightarrow> Num (now + v) | None \<Rightarrow> NaN)"

definition isAfter :: "int \<Rightarrow> jsnumber \<Rightarrow> bool" where
  "isAfter now t = (case t of Num v \<Rightarrow> now > v | NaN \<Rightarrow> False)"

definition reaches :: "nat \<Rightarrow> nat option \<Rightarrow> bool" where
  "reaches c x = (case x of Some v \<Rightarrow> c \<ge> v | None \<Rightarrow> False)"

definition minusCount :: "nat option \<Rightarrow> nat \<Rightarrow> jsnumber" where
  "minusCount x c = (case x of Some v \<Rightarrow> Num (int v - int c) | None \<Rightarrow> NaN)"

text \<open>\<open>userLimit?.blockedUntil && now < userLimit.blockedUntil\<close>\<close>

definition isBlocked :: "UserLimitInfo option \<Rightarrow> int \<Rightarrow> bool" where
  "isBlocked userLimit now =
     (case userLimit of
        None \<Rightarrow> False
      | Some ul \<Rightarrow> truthy (blockedUntil ul) \<and> now < the (blockedUntil ul))"

text \<open>
  \<open>checkLimit(userId, action)\<close> at time \<open>now = Date.now()\<close>.  The result is the
  returned object and the service after the call.  An \<open>undefined\<close> rule raises a
  \<open>TypeError\<close> at its first property access, which comes after the block test and before
  any write.  The function never reads \<open>vipUsers\<close>.  The reason of a rejection for an
  exceeded limit is built only where \<open>count >= rule.maxRequests\<close> holds, that is for a
  rule object.
\<close>

definition checkLimit ::
  "RateLimitService \<Rightarrow> int \<Rightarrow> string \<Rightarrow> int \<Rightarrow> js_error + (CheckResult \<times> RateLimitService)"
where
  "checkLimit svc userId action now =
    (let rule = ruleFor svc action;
         key = limitKey userId action;
         userLimit = map_of (limits svc) key
     in
       if isBlocked userLimit now then
         (let ul = the userLimit
          in Inr (\<lparr>allowed = False, remaining = Num 0, resultResetTime = resetTime ul,
                    resultBlockedUntil = blockedUntil ul,
                    resultReason = Some (BlockedUntilReason (the (blockedUntil ul)))\<rparr>, svc))
       else if rule = Undefined then Inl TypeError
       else
         (let fresh = (case userLimit of None \<Rightarrow> True
                       | Some ul \<Rightarrow> isAfter now (resetTime ul));
              ul1 = (if fresh
                     then \<lparr>count = 0, resetTime = plusMs now (windowMsOf rule),
                           blockedUntil = None,
                           violations = (case userLimit of None \<Rightarrow> 0
                                         | Some ul \<Rightarrow> violations ul)\<rparr>
                     else the userLimit);
              limits1 = (if fresh then AList.update key ul1 (limits svc) else limits svc)
          in
            if reaches (count ul1) (maxRequestsOf rule) then
              (let ul2 = ul1\<lparr>violations := violations ul1 + 1\<rparr>;
                   ul3 = (if truthy (blockDurationMsOf rule)
                          then ul2\<lparr>blockedUntil := Some (now + the (blockDurationMsOf rule))\<rparr>
                          else ul2)
               in Inr (\<lparr>allowed = False, remaining = Num 0, resultResetTime = resetTime ul3,
                         resultBlockedUntil = blockedUntil ul3,
                         resultReason =
                           Some (LimitExceededReason (the (maxRequestsOf rule))
                                   (the (windowMsOf rule)))\<rparr>,
                       svc\<lparr>limits := AList.update key ul3 limits1\<rparr>))
            else
              (let ul2 = ul1\<lparr>count := count ul1 + 1\<rparr>
               in Inr (\<lparr>allowed = True,
                         remaining = minusCount (maxRequestsOf rule) (count ul2),
                         resultResetTime = resetTime ul2,
                         resultBlockedUntil = None, resultReason = None\<rparr>,
                       svc\<lparr>limits := AList.update key ul2 limits1\<rparr>))))"

text \<open>Successive \<open>checkLimit\<close> calls of one user for one action, at the given times;
  the results in call order.  A raised error ends the run.\<close>

fun checkLimits ::
  "RateLimitService \<Rightarrow> int \<Rightarrow> string \<Rightarrow> int list
     \<Rightarrow> js_error + (CheckResult list \<times> RateLimitService)"
where
  "checkLimits svc userId action [] = Inr ([], svc)"
| "checkLimits svc userId action (now # nows) =
     (case checkLimit svc userId action now of
        Inl e \<Rightarrow> Inl e
      | Inr (r, svc1) \<Rightarrow>
         (case checkLimits svc1 userId action nows of
            Inl e \<Rightarrow> Inl e
          | Inr (rs, svc2) \<Rightarrow> Inr (r # rs, svc2)))"

text \<open>\<open>resetUserLimits(userId, action?)\<close>: with a (truthy, that is non-empty) action
  the one key is deleted; otherwise every key that starts with \<open>`${userId}:`\<close>.\<close>

definition resetUserLimits ::
  "RateLimitService \<Rightarrow> int \<Rightarrow> string option \<Rightarrow> RateLimitService"
where
  "resetUserLimits svc userId action =
     (if action \<noteq> None \<and> the action \<noteq> [] then
        svc\<lparr>limits := AList.delete (limitKey userId (the action)) (limits svc)\<rparr>
      else
        (let keysToDelete =
               filter (\<lambda>key. prefix (string_of_int userId @ '':'') key)
                 (map fst (limits svc))
         in svc\<lparr>limits := fold AList.delete keysToDelete (limits svc)\<rparr>))"

definition addVipUser :: "RateLimitService \<Rightarrow> int \<Rightarrow> RateLimitService" where
  "addVipUser svc userId = svc\<lparr>vipUsers := insert userId (vipUsers svc)\<rparr>"

definition removeVipUser :: "RateLimitService \<Rightarrow> int \<Rightarrow> RateLimitService" where
  "removeVipUser svc userId = svc\<lparr>vipUsers := vipUsers svc - {userId}\<rparr>"

definition isVipUser :: "RateLimitService \<Rightarrow> int \<Rightarrow> bool" where
  "isVipUser svc userId = (userId \<in> vipUsers svc)"

text \<open>\<open>updateRule\<close>: \<open>this.rules[action] = rule\<close>.  The assignment writes an own
  property, except for the name \<open>__proto__\<close> (when it is not an own property), where it
  runs the setter inherited from \<open>Object.prototype\<close> and replaces the prototype.\<close>

definition updateRule :: "RateLimitService \<Rightarrow> string \<Rightarrow> RateLimitRule \<Rightarrow> RateLimitService" where
  "updateRule svc action rule =
     (if action = ''__proto__'' \<and> map_of (ownRules (rules svc)) action = None
      then svc\<lparr>rules := (rules svc)\<lparr>prototypeRule := Some rule\<rparr>\<rparr>
      else svc\<lparr>rules := (rules svc)\<lparr>ownRules := AList.update action rule (ownRules (rules svc))\<rparr>\<rparr>)"

text \<open>
  \<open>createMiddleware(action)\<close> applied to an update whose sender id is \<open>fromId\<close>
  (\<open>ctx.from?.id\<close>, \<open>None\<close> when absent): a missing or zero id and a VIP user go
  straight to \<open>next()\<close>; anyone else goes through \<open>checkLimit\<close>.
\<close>

datatype middleware_outcome = Next | NextWithLimit jsnumber jsnumber | Replied CheckResult

definition createMiddleware ::
  "string \<Rightarrow> RateLimitService \<Rightarrow> int option \<Rightarrow> int
     \<Rightarrow> js_error + (middleware_outcome \<times> RateLimitService)"
where
  "createMiddleware action svc fromId now =
     (if \<not> truthy fromId then Inr (Next, svc)
      else if isVipUser svc (the fromId) then Inr (Next, svc)
      else
        (case checkLimit svc (the fromId) action now of
           Inl e \<Rightarrow> Inl e
         | Inr (limitResult, svc1) \<Rightarrow>
            if \<not> allowed limitResult then Inr (Replied limitResult, svc1)
            else Inr (NextWithLimit (remaining limitResult) (resultResetTime limitResult),
                      svc1)))"

text \<open>The image handler's rate test, as \<open>bot.ts\<close> wires it:
  \<open>checkUserRateLimit: (userId) => rateLimitService.checkLimit(userId,
  'image_processing').allowed\<close>.\<close>

definition checkUserRateLimit ::
  "RateLimitService \<Rightarrow> int \<Rightarrow> int \<Rightarrow> js_error + (bool \<times> RateLimitService)"
where
  "checkUserRateLimit svc userId now =
     (case checkLimit svc userId ''image_processing'' now of
        Inl e \<Rightarrow> Inl e
      | Inr (r, svc1) \<Rightarrow> Inr (allowed r, svc1))"

text \<open>The results of a run of \<open>checkLimits\<close> (none when it raised).\<close>

definition resultsOf :: "js_error + (CheckResult list \<times> RateLimitService) \<Rightarrow> CheckResult list" where
  "resultsOf x = (case x of Inl e \<Rightarrow> [] | Inr (rs, svc) \<Rightarrow> rs)"

text \<open>Two windows used as concrete inputs below.\<close>

definition window12 :: UserLimitInfo where
  "window12 = \<lparr>count = 3, resetTime = Num 60000, blockedUntil = None, violations = 0\<rparr>"

definition window123 :: UserLimitInfo where
  "window123 = \<lparr>count = 30, resetTime = Num 61000, blockedUntil = Some 361000, violations = 1\<rparr>"

section \<open>Upstream client (OpenRouterService)\<close>

subsection \<open>One call: up to three attempts\<close>

text \<open>The \<open>content\<close> of the first choice, as the response schema admits it: a string,
  or an array of blocks \<open>{type, text?}\<close>.\<close>

datatype content = ContentString jsstring | ContentBlocks "(string \<times> jsstring option) list"

definition extractContentText :: "content \<Rightarrow> jsstring" where
  "extractContentText c =
     (case c of
        ContentString s \<Rightarrow> s
      | ContentBlocks items \<Rightarrow>
          trim (joinWith [10]
            (filter (\<lambda>t. t \<noteq> [])
               (map (\<lambda>item. case snd item of None \<Rightarrow> [] | Some t \<Rightarrow> t) items))))"

text \<open>What one attempt meets: \<open>fetch\<close> throws (network error, abort on timeout), or a
  response arrives with its status, its body as text, and its body as JSON run through
  the schema.\<close>

datatype body_json = JsonThrows string | SchemaMismatch string | Valid content

datatype attempt_outcome = FetchThrows string | Response nat string body_json

text \<open>
  The errors thrown inside the \<open>try\<close> block, by the template of their message:
  \<open>RetryableStatus s\<close> is "the service returned status s" (429 and 5xx, logged as
  "retrying the request"), \<open>OpenRouterError s body\<close> is "OpenRouter error: s body",
  \<open>ParseFailure m\<close> is "could not parse the OpenRouter response: m", \<open>NoContent\<close> is
  "OpenRouter returned no content", \<open>Thrown m\<close> is what \<open>fetch\<close> or \<open>response.json()\<close>
  threw.
\<close>

datatype call_error =
    RetryableStatus nat
  | OpenRouterError nat string
  | ParseFailure string
  | NoContent
  | Thrown string

text \<open>The error the call ends with after the loop: "could not get a response from
  OpenRouter: " followed by the last error's message (or "unknown error").\<close>

datatype final_error = GaveUp call_error | GaveUpUnknown

definition attemptOnce :: "attempt_outcome \<Rightarrow> call_error + jsstring" where
  "attemptOnce out =
     (case out of
        FetchThrows m \<Rightarrow> Inl (Thrown m)
      | Response status errorText json \<Rightarrow>
          if \<not> (200 \<le> status \<and> status \<le> 299) then
            (if status = 429 \<or> status \<ge> 500 then Inl (RetryableStatus status)
             else Inl (OpenRouterError status errorText))
          else
            (case json of
               JsonThrows m \<Rightarrow> Inl (Thrown m)
             | SchemaMismatch m \<Rightarrow> Inl (ParseFailure m)
             | Valid c \<Rightarrow>
                 (let content = trim (extractContentText c)
                  in if content = [] then Inl NoContent else Inr content)))"

text \<open>The service: its two counters, the number of running calls and the queue of
  calls waiting for a slot (a call is named by a number).\<close>

record OpenRouterService =
  totalRequests :: nat
  totalErrors :: nat
  currentRequests :: nat
  requestQueue :: "nat list"


definition newOpenRouterService :: OpenRouterService where
  "newOpenRouterService =
     \<lparr>totalRequests = 0, totalErrors = 0, currentRequests = 0, requestQueue = []\<rparr>"

text \<open>
  The body of \<open>callOpenRouter\<close>: \<open>while (attempt < 3)\<close>.  \<open>upstream k\<close> is what attempt
  number \<open>k\<close> (from 0) meets.  Every error thrown in the \<open>try\<close> block, whatever its
  kind, lands in the one \<open>catch\<close>, which counts it, increments \<open>attempt\<close> and sleeps
  \<open>400 * 2 ** (attempt - 1)\<close> ms unless that was the third attempt.  The result is the
  returned text or the final error, the service with its counters, and the sleeps in
  order.
\<close>

function attemptLoop ::
  "(nat \<Rightarrow> attempt_outcome) \<Rightarrow> nat \<Rightarrow> call_error option \<Rightarrow> OpenRouterService \<Rightarrow> nat list
     \<Rightarrow> (final_error + jsstring) \<times> OpenRouterService \<times> nat list"
where
  "attemptLoop upstream attempt lastError svc delays =
     (if attempt < 3 then
        (let svc1 = svc\<lparr>totalRequests := totalRequests svc + 1\<rparr>
         in case attemptOnce (upstream attempt) of
              Inr content \<Rightarrow> (Inr content, svc1, delays)
            | Inl err \<Rightarrow>
                (let svc2 = svc1\<lparr>totalErrors := totalErrors svc1 + 1\<rparr>;
                     attempt1 = attempt + 1;
                     delays1 = (if attempt1 < 3
                                then delays @ [400 * 2 ^ (attempt1 - 1)] else delays)
                 in attemptLoop upstream attempt1 (Some err) svc2 delays1))
      else
        (case lastError of
           Some err \<Rightarrow> (Inl (GaveUp err), svc, delays)
         | None \<Rightarrow> (Inl GaveUpUnknown, svc, delays)))"
  by pat_completeness auto
termination
  by (relation "measure (\<lambda>(upstream, attempt, lastError, svc, delays). 3 - attempt)") auto

declare attemptLoop.simps [simp del]

definition callOpenRouterBody ::
  "(nat \<Rightarrow> attempt_outcome) \<Rightarrow> OpenRouterService
     \<Rightarrow> (final_error + jsstring) \<times> OpenRouterService \<times> nat list"
where
  "callOpenRouterBody upstream svc = attemptLoop upstream 0 None svc []"

subsection \<open>The concurrency limit\<close>











text \<open>Two upstreams used as concrete inputs: every attempt is answered with status 400;
  the first attempt is answered with status 400 and the second with a valid completion
  whose text is "ok".\<close>

definition alwaysBadRequest :: "nat \<Rightarrow> attempt_outcome" where
  "alwaysBadRequest k = Response 400 ''bad request'' (JsonThrows [])"

definition badRequestThenOk :: "nat \<Rightarrow> attempt_outcome" where
  "badRequestThenOk k =
     (if k = 0 then Response 400 ''bad request'' (JsonThrows [])
      else Response 200 [] (Valid (ContentString [111, 107])))"

section \<open>Image processor (imageProcessor.ts)\<close>

record ImageProcessorConfig =
  maxConcurrentProcessing :: nat
  requestTimeout :: nat
  maxRetries :: nat

text \<open>The constructor fills each option as \<open>config.x || default\<close>: a missing option and
  \<open>0\<close> both give the default.\<close>

definition orDefault :: "nat option \<Rightarrow> nat \<Rightarrow> nat" where
  "orDefault x d = (case x of None \<Rightarrow> d | Some v \<Rightarrow> if v = 0 then d else v)"

definition newImageProcessorConfig ::
  "nat option \<Rightarrow> nat option \<Rightarrow> nat option \<Rightarrow> ImageProcessorConfig"
where
  "newImageProcessorConfig concurrency timeout retries =
     \<lparr>maxConcurrentProcessing = orDefault concurrency 3,
      requestTimeout = orDefault timeout 180000,
      maxRetries = orDefault retries 2\<rparr>"

text \<open>
  A thrown value is an \<open>Error\<close> with its message, \<open>undefined\<close> or \<open>null\<close>, or anything
  else (a string, a number, an object that is no \<open>Error\<close>; its \<open>message\<close> property, if
  it has one, is taken to be readable and printable).  The messages are
  kept by their template: \<open>Message m\<close> is an error's own message, \<open>TimeoutMessage\<close> the
  message of the timeout promise ("image processing timed out"), \<open>UnknownErrorMessage\<close>
  the text used when \<open>lastError\<close> is not an \<open>Error\<close>.  \<open>FailedAfter n m\<close> is the result's
  error string, "could not process the image after n attempts: m".
\<close>

datatype error_message = Message string | TimeoutMessage | UnknownErrorMessage

datatype thrown = ErrorObject error_message | NullOrUndefined | OtherValue

datatype image_failure = FailedAfter nat error_message

datatype settled = Resolves jsstring | Rejects thrown

text \<open>
  What one attempt meets: how the \<open>try\<close> block's calls (\<open>appendToHistory\<close>,
  \<open>buildHistory\<close>, \<open>getUserSystemPrompt\<close> and \<open>callOpenRouter\<close>, all passed in by the
  caller) settle and after how many milliseconds, and by how much the backoff sleep that
  may follow overshoots its delay.
\<close>

record attempt_run =
  settles :: settled
  duration :: nat
  lateness :: nat

record ProcessingResult =
  success :: bool
  result :: "jsstring option"
  error :: "image_failure option"
  processingTime :: nat

text \<open>\<open>Promise.race([callOpenRouter(...), timeoutPromise])\<close>: how the attempt settles
  and the time it took.\<close>

definition raceWithTimeout :: "nat \<Rightarrow> attempt_run \<Rightarrow> settled \<times> nat" where
  "raceWithTimeout timeout run =
     (if duration run < timeout then (settles run, duration run)
      else (Rejects (ErrorObject TimeoutMessage), timeout))"

definition errorMessageOf :: "thrown option \<Rightarrow> error_message" where
  "errorMessageOf lastError =
     (case lastError of Some (ErrorObject m) \<Rightarrow> m | _ \<Rightarrow> UnknownErrorMessage)"

text \<open>
  \<open>executeImageProcessing\<close>: \<open>for (attempt = 1; attempt <= maxRetries; attempt++)\<close>, with
  the clock \<open>now\<close> passed along.  The outcome comes with the number of attempts made and
  the backoff delays slept, in order.  The \<open>catch\<close> block stores the thrown value and
  then reads \<open>(error as Error).message\<close> for its log line, before any sleep: on
  \<open>undefined\<close> and \<open>null\<close> that read raises a \<open>TypeError\<close>, which leaves the loop and
  the method (\<open>Inl\<close>: the returned promise is rejected); on every other value it is a
  plain property read.
\<close>

function executeLoop ::
  "ImageProcessorConfig \<Rightarrow> (nat \<Rightarrow> attempt_run) \<Rightarrow> nat \<Rightarrow> nat \<Rightarrow> thrown option \<Rightarrow> nat
     \<Rightarrow> nat \<Rightarrow> nat list \<Rightarrow> (js_error + ProcessingResult) \<times> nat \<times> nat list"
where
  "executeLoop cfg env startTime attempt lastError now made sleeps =
     (if attempt \<le> maxRetries cfg then
        (let (settled, elapsed) = raceWithTimeout (requestTimeout cfg) (env attempt);
             now1 = now + elapsed
         in case settled of
              Resolves assistantReply \<Rightarrow>
                (Inr \<lparr>success = True, result = Some assistantReply, error = None,
                      processingTime = now1 - startTime\<rparr>, made + 1, sleeps)
            | Rejects err \<Rightarrow>
                if err = NullOrUndefined then (Inl TypeError, made + 1, sleeps)
                else if attempt < maxRetries cfg then
                  (let delayMs = 1000 * 2 ^ (attempt - 1)
                   in executeLoop cfg env startTime (attempt + 1) (Some err)
                        (now1 + delayMs + lateness (env attempt)) (made + 1)
                        (sleeps @ [delayMs]))
                else executeLoop cfg env startTime (attempt + 1) (Some err) now1 (made + 1)
                       sleeps)
      else
        (Inr \<lparr>success = False, result = None,
              error = Some (FailedAfter (maxRetries cfg) (errorMessageOf lastError)),
              processingTime = now - startTime\<rparr>, made, sleeps))"
  by pat_completeness auto
termination
  by (relation "measure (\<lambda>(cfg, env, startTime, attempt, lastError, now, made, sleeps).
        Suc (maxRetries cfg) - attempt)") auto

declare executeLoop.simps [simp del]

definition executeImageProcessing ::
  "ImageProcessorConfig \<Rightarrow> (nat \<Rightarrow> attempt_run) \<Rightarrow> nat
     \<Rightarrow> (js_error + ProcessingResult) \<times> nat \<times> nat list"
where
  "executeImageProcessing cfg env startTime = executeLoop cfg env startTime 1 None startTime 0 []"

text \<open>The time attempt \<open>a\<close> takes and the value it throws, after the race.\<close>

definition elapsedOf :: "ImageProcessorConfig \<Rightarrow> (nat \<Rightarrow> attempt_run) \<Rightarrow> nat \<Rightarrow> nat" where
  "elapsedOf cfg env a = snd (raceWithTimeout (requestTimeout cfg) (env a))"

definition fails :: "ImageProcessorConfig \<Rightarrow> (nat \<Rightarrow> attempt_run) \<Rightarrow> nat \<Rightarrow> bool" where
  "fails cfg env a =
     (case fst (raceWithTimeout (requestTimeout cfg) (env a)) of
        Rejects err \<Rightarrow> True | Resolves r \<Rightarrow> False)"

definition thrownAt :: "ImageProcessorConfig \<Rightarrow> (nat \<Rightarrow> attempt_run) \<Rightarrow> nat \<Rightarrow> thrown option" where
  "thrownAt cfg env a =
     (case fst (raceWithTimeout (requestTimeout cfg) (env a)) of
        Rejects err \<Rightarrow> Some err | Resolves r \<Rightarrow> None)"

definition backoff :: "nat \<Rightarrow> nat" where
  "backoff attempt = 1000 * 2 ^ (attempt - 1)"

text \<open>An attempt that fails with a value whose \<open>message\<close> can be read.\<close>

definition failsReadably :: "ImageProcessorConfig \<Rightarrow> (nat \<Rightarrow> attempt_run) \<Rightarrow> nat \<Rightarrow> bool" where
  "failsReadably cfg env a =
     (fails cfg env a \<and> thrownAt cfg env a \<noteq> Some NullOrUndefined)"

text \<open>Three environments used as concrete inputs: every attempt is rejected at once with
  the error "Connect Timeout"; every attempt is rejected after 250 ms, and each sleep
  overshoots by 3 ms; every attempt is rejected at once with \<open>undefined\<close>.\<close>

definition failsAtOnce :: "nat \<Rightarrow> attempt_run" where
  "failsAtOnce a =
     \<lparr>settles = Rejects (ErrorObject (Message ''Connect Timeout'')), duration = 0, lateness = 0\<rparr>"

definition failsSlowly :: "nat \<Rightarrow> attempt_run" where
  "failsSlowly a =
     \<lparr>settles = Rejects (ErrorObject (Message ''Connect Timeout'')), duration = 250, lateness = 3\<rparr>"

definition rejectsUndefined :: "nat \<Rightarrow> attempt_run" where
  "rejectsUndefined a = \<lparr>settles = Rejects NullOrUndefined, duration = 0, lateness = 0\<rparr>"

subsection \<open>Jobs in flight\<close>

text \<open>\<open>jobId = `${job.userId}_${job.messageId}_${Date.now()}`\<close>\<close>

definition jobIdOf :: "int \<Rightarrow> int \<Rightarrow> int \<Rightarrow> string" where
  "jobIdOf userId messageId now =
     string_of_int userId @ ''_'' @ string_of_int messageId @ ''_'' @ string_of_int now"

text \<open>\<open>isProcessingForUser\<close> and \<open>getActiveJobsForUser\<close> over the keys of
  \<open>processingJobs\<close>.\<close>

definition isProcessingForUser :: "string list \<Rightarrow> int \<Rightarrow> bool" where
  "isProcessingForUser jobs userId =
     list_ex (\<lambda>jobId. prefix (string_of_int userId @ ''_'') jobId) jobs"

definition getActiveJobsForUser :: "string list \<Rightarrow> int \<Rightarrow> nat" where
  "getActiveJobsForUser jobs userId =
     length (filter (\<lambda>jobId. prefix (string_of_int userId @ ''_'') jobId) jobs)"

section \<open>Single-flight admission (bot.ts, nonBlockingImageHandler.ts)\<close>

text \<open>
  The state both paths consult: the keys of \<open>userActiveRequests\<close> (the text path's
  flag), the keys of the image processor's \<open>processingJobs\<close>, and, for the event model,
  the photo handlers that have passed the admission test and are suspended at an
  \<open>await\<close> before \<open>processImageAsync\<close> registers their job.  \<open>requireWorks\<close> is fixed
  by the build: whether \<open>require('./imageProcessor.js')\<close> succeeds where \<open>bot.ts\<close>
  calls it (in an ES module \<open>require\<close> is not defined and the call throws).
\<close>

record bot_state =
  userActiveRequests :: "int set"
  processingJobs :: "string list"
  awaitingPhotos :: "(int \<times> int) list"
  requireWorks :: bool

definition newBot :: "bool \<Rightarrow> bot_state" where
  "newBot works =
     \<lparr>userActiveRequests = {}, processingJobs = [], awaitingPhotos = [], requireWorks = works\<rparr>"

text \<open>\<open>isProcessingImageForUser\<close> of \<open>bot.ts\<close> reaches the image processor through
  \<open>require\<close> in a \<open>try\<close> block and answers \<open>false\<close> when that throws.\<close>

definition isProcessingImageForUser :: "bot_state \<Rightarrow> int \<Rightarrow> bool" where
  "isProcessingImageForUser s userId =
     (if requireWorks s then isProcessingForUser (processingJobs s) userId else False)"

text \<open>
  \<open>processTextMessage\<close> up to its first \<open>await\<close>: the test and, when it passes, the
  immediate \<open>userActiveRequests.set(userId, true)\<close>.  The flag tells whether the message
  was admitted.
\<close>

definition processTextMessage :: "bot_state \<Rightarrow> int \<Rightarrow> bool \<times> bot_state" where
  "processTextMessage s userId =
     (let isActive = (userId \<in> userActiveRequests s);
          isProcessingImage = isProcessingImageForUser s userId
      in if isActive \<or> isProcessingImage then (False, s)
         else (True, s\<lparr>userActiveRequests := insert userId (userActiveRequests s)\<rparr>))"

text \<open>The \<open>finally\<close> block of \<open>processTextMessage\<close>, and equally the emergency timer:
  \<open>userActiveRequests.delete(userId)\<close>.\<close>

definition releaseText :: "bot_state \<Rightarrow> int \<Rightarrow> bot_state" where
  "releaseText s userId = s\<lparr>userActiveRequests := userActiveRequests s - {userId}\<rparr>"

text \<open>
  The photo handler up to its first \<open>await\<close> on the admitting path: model support, the
  rate test, then the busy test, which asks the image processor it imports directly.  It
  registers nothing; an admitted handler goes on to \<open>await replyWithTracking(...)\<close> and
  \<open>await tgFileToDataUrl(...)\<close>.
\<close>

definition photoHandlerCheck :: "bot_state \<Rightarrow> int \<Rightarrow> int \<Rightarrow> bool \<Rightarrow> bool \<Rightarrow> bool \<times> bot_state" where
  "photoHandlerCheck s userId messageId supportsImages rateAllowed =
     (if \<not> supportsImages then (False, s)
      else if \<not> rateAllowed then (False, s)
      else if userId \<in> userActiveRequests s \<or> isProcessingForUser (processingJobs s) userId
      then (False, s)
      else (True, s\<lparr>awaitingPhotos := awaitingPhotos s @ [(userId, messageId)]\<rparr>))"

text \<open>The handler after its awaits: \<open>processImageAsync\<close> builds the job id, throws when
  that id is present and otherwise stores the job.\<close>

definition processImageAsync :: "bot_state \<Rightarrow> int \<Rightarrow> int \<Rightarrow> int \<Rightarrow> bot_state" where
  "processImageAsync s userId messageId now =
     (let jobId = jobIdOf userId messageId now;
          s1 = s\<lparr>awaitingPhotos := remove1 (userId, messageId) (awaitingPhotos s)\<rparr>
      in if jobId \<in> set (processingJobs s1) then s1
         else s1\<lparr>processingJobs := processingJobs s1 @ [jobId]\<rparr>)"

text \<open>The \<open>finally\<close> block of \<open>processImageAsync\<close>.\<close>

definition imageJobDone :: "bot_state \<Rightarrow> string \<Rightarrow> bot_state" where
  "imageJobDone s jobId = s\<lparr>processingJobs := removeAll jobId (processingJobs s)\<rparr>"

datatype bot_event =
    TextMessage int int
  | TextDone int
  | PhotoMessage int int
  | PhotoContinues int int int
  | ImageJobDone string

text \<open>One event each: a text message arrives (user, message id); a text request
  completes; a photo arrives (its model supports images and the rate test passes); a
  suspended photo handler continues at the given time; an image job settles.\<close>

fun botStep :: "bot_event \<Rightarrow> bot_state \<Rightarrow> bot_state" where
  "botStep (TextMessage userId messageId) s = snd (processTextMessage s userId)"
| "botStep (TextDone userId) s = releaseText s userId"
| "botStep (PhotoMessage userId messageId) s =
     snd (photoHandlerCheck s userId messageId True True)"
| "botStep (PhotoContinues userId messageId now) s =
     (if (userId, messageId) \<in> set (awaitingPhotos s)
      then processImageAsync s userId messageId now else s)"
| "botStep (ImageJobDone jobId) s = imageJobDone s jobId"

definition botRun :: "bool \<Rightarrow> bot_event list \<Rightarrow> bot_state" where
  "botRun works events = fold botStep events (newBot works)"

text \<open>The heavy requests registered for a user: the text flag and the image jobs.\<close>

definition heavyRegistered :: "bot_state \<Rightarrow> int \<Rightarrow> nat" where
  "heavyRegistered s userId =
     (if userId \<in> userActiveRequests s then 1 else 0)
       + getActiveJobsForUser (processingJobs s) userId"

section \<open>Formatting and pagination (MessageService, services/messageService.ts)\<close>

definition MAX_PAGE_LENGTH :: nat where
  "MAX_PAGE_LENGTH = 3500"

definition MAX_CACHE_SIZE :: nat where
  "MAX_CACHE_SIZE = 100"

text \<open>The two characters the formatter removes: U+2728 (sparkles) and U+2501 (box
  drawings heavy horizontal); and the newline and the space the splitter cuts at.\<close>

definition SPARKLES :: nat where "SPARKLES = 10024"
definition HEAVY_RULE :: nat where "HEAVY_RULE = 9473"
definition NEWLINE :: nat where "NEWLINE = 10"
definition SPACE :: nat where "SPACE = 32"

subsection \<open>\<open>stripDecor\<close> and \<open>formatResponse\<close>\<close>

text \<open>
  \<open>.replace(/^S\s*/gm, '')\<close>, where \<open>S\<close> is the sparkles character.  Scanning from
  the left, a sparkles character that stands at the start of the text or right after a
  line terminator is removed together with the white space that follows it (line
  terminators included).  The scan goes on behind the match, where \<open>^\<close> holds again
  exactly when the last character of the match was a line terminator.  \<open>atLineStart\<close>
  says whether \<open>^\<close> holds at the current position.
\<close>

function stripMarker :: "bool \<Rightarrow> jsstring \<Rightarrow> jsstring" where
  "stripMarker atLineStart [] = []"
| "stripMarker atLineStart (c # cs) =
     (if atLineStart \<and> c = SPARKLES then
        (let spaces = takeWhile isWhiteSpace cs;
             rest = dropWhile isWhiteSpace cs
         in stripMarker (spaces \<noteq> [] \<and> isLineTerminator (last spaces)) rest)
      else c # stripMarker (isLineTerminator c) cs)"
  by pat_completeness auto
termination
  by (relation "measure (\<lambda>(atLineStart, s). length s)")
     (auto simp: less_Suc_eq_le length_dropWhile_le)

text \<open>\<open>.replace(/R+/g, '')\<close>, where \<open>R\<close> is the heavy rule character: every
  such character goes.\<close>

definition removeRules :: "jsstring \<Rightarrow> jsstring" where
  "removeRules s = filter (\<lambda>c. c \<noteq> HEAVY_RULE) s"

text \<open>\<open>.replace(/\n{3,}/g, '\n\n')\<close>: every maximal run of three or more newlines
  becomes two newlines; shorter runs stay.\<close>

function collapseNewlines :: "jsstring \<Rightarrow> jsstring" where
  "collapseNewlines [] = []"
| "collapseNewlines (c # cs) =
     (if c = NEWLINE then
        (let run = takeWhile (\<lambda>x. x = NEWLINE) (c # cs);
             rest = dropWhile (\<lambda>x. x = NEWLINE) (c # cs)
         in (if length run \<ge> 3 then [NEWLINE, NEWLINE] else run) @ collapseNewlines rest)
      else c # collapseNewlines cs)"
  by pat_completeness auto
termination
  by (relation "measure length") (auto simp: less_Suc_eq_le length_dropWhile_le)

definition stripDecor :: "jsstring \<Rightarrow> jsstring" where
  "stripDecor text = trim (collapseNewlines (removeRules (stripMarker True text)))"

text \<open>What \<open>formatResponse\<close> computes for a text that is not in its cache.\<close>

definition formatResponse :: "jsstring \<Rightarrow> jsstring" where
  "formatResponse text = (let trimmed = trim text; cleaned = stripDecor trimmed in cleaned)"

subsection \<open>\<open>splitMessage\<close>\<close>

text \<open>
  The inner loop over the words of a paragraph that is longer than a page, with the
  \<open>if (wordChunk) chunks.push(wordChunk.trim())\<close> that follows it; the result is the
  pages pushed, in order.  An empty string is falsy.
\<close>

fun packWords :: "jsstring list \<Rightarrow> jsstring \<Rightarrow> jsstring list" where
  "packWords [] wordChunk = (if wordChunk \<noteq> [] then [trim wordChunk] else [])"
| "packWords (word # words) wordChunk =
     (if length wordChunk + length word + 1 \<le> MAX_PAGE_LENGTH
      then packWords words (wordChunk @ (if wordChunk \<noteq> [] then [SPACE] else []) @ word)
      else (if wordChunk \<noteq> [] then [trim wordChunk] else []) @ packWords words word)"

text \<open>The outer loop over the paragraphs, with the final
  \<open>if (current) chunks.push(current.trim())\<close>.\<close>

fun packParagraphs :: "jsstring list \<Rightarrow> jsstring \<Rightarrow> jsstring list" where
  "packParagraphs [] current = (if current \<noteq> [] then [trim current] else [])"
| "packParagraphs (paragraph # paragraphs) current =
     (if length current + length paragraph + 2 \<le> MAX_PAGE_LENGTH
      then packParagraphs paragraphs
             (current @ (if current \<noteq> [] then [NEWLINE, NEWLINE] else []) @ paragraph)
      else (if current \<noteq> [] then [trim current] else [])
           @ (if length paragraph > MAX_PAGE_LENGTH
              then packWords (split [SPACE] paragraph) [] @ packParagraphs paragraphs []
              else packParagraphs paragraphs paragraph))"

text \<open>What \<open>splitMessage\<close> computes for a text that is not in its cache.\<close>

definition splitMessage :: "jsstring \<Rightarrow> jsstring list" where
  "splitMessage text =
     (if length text \<le> MAX_PAGE_LENGTH then [text]
      else packParagraphs (split [NEWLINE, NEWLINE] text) [])"

subsection \<open>The caches\<close>

text \<open>Both methods first look the text up in a \<open>Map\<close> and store a computed result
  while the map holds fewer than \<open>MAX_CACHE_SIZE\<close> entries.\<close>

record MessageService =
  responseCache :: "(jsstring \<times> jsstring) list"
  splitCache :: "(jsstring \<times> jsstring list) list"

definition newMessageService :: MessageService where
  "newMessageService = \<lparr>responseCache = [], splitCache = []\<rparr>"

definition formatResponseCached :: "MessageService \<Rightarrow> jsstring \<Rightarrow> jsstring \<times> MessageService" where
  "formatResponseCached svc text =
     (case map_of (responseCache svc) text of
        Some cached \<Rightarrow> (cached, svc)
      | None \<Rightarrow>
          (let cleaned = formatResponse text
           in (cleaned,
               if length (responseCache svc) < MAX_CACHE_SIZE
               then svc\<lparr>responseCache := AList.update text cleaned (responseCache svc)\<rparr>
               else svc)))"

definition splitMessageCached :: "MessageService \<Rightarrow> jsstring \<Rightarrow> jsstring list \<times> MessageService" where
  "splitMessageCached svc text =
     (case map_of (splitCache svc) text of
        Some cached \<Rightarrow> (cached, svc)
      | None \<Rightarrow>
          (let chunks = splitMessage text
           in (chunks,
               if length (splitCache svc) < MAX_CACHE_SIZE
               then svc\<lparr>splitCache := AList.update text chunks (splitCache svc)\<rparr>
               else svc)))"

definition clearCaches :: "MessageService \<Rightarrow> MessageService" where
  "clearCaches svc = svc\<lparr>responseCache := [], splitCache := []\<rparr>"

text \<open>A cache is consistent when every entry holds what the method computes for its
  key; the empty caches are, and the methods keep them so.\<close>

definition cachesConsistent :: "MessageService \<Rightarrow> bool" where
  "cachesConsistent svc =
     (list_all (\<lambda>(text, cached). cached = formatResponse text) (responseCache svc)
      \<and> list_all (\<lambda>(text, cached). cached = splitMessage text) (splitCache svc))"

subsection \<open>Notions used to state the properties\<close>

text \<open>A string that \<open>trim\<close> leaves alone: empty, or with no white space at either
  end.\<close>

definition trimmed :: "jsstring \<Rightarrow> bool" where
  "trimmed s = (s = [] \<or> (\<not> isWhiteSpace (hd s) \<and> \<not> isWhiteSpace (last s)))"

abbreviation tripleNewline :: jsstring where
  "tripleNewline \<equiv> [NEWLINE, NEWLINE, NEWLINE]"

text \<open>Every word of every paragraph fits on a page; every page fits.\<close>

definition wordsFit :: "jsstring \<Rightarrow> bool" where
  "wordsFit text =
     list_all (\<lambda>paragraph. list_all (\<lambda>word. length word \<le> MAX_PAGE_LENGTH)
                                 (split [SPACE] paragraph))
       (split [NEWLINE, NEWLINE] text)"

definition pagesFit :: "jsstring list \<Rightarrow> bool" where
  "pagesFit pages = list_all (\<lambda>page. length page \<le> MAX_PAGE_LENGTH) pages"

text \<open>Every text obtained by joining the pages in order, putting at each join either
  \<open>wordSep\<close> (a join inside a paragraph) or a blank line (a join between paragraphs).\<close>

fun reconstructions :: "jsstring \<Rightarrow> jsstring list \<Rightarrow> jsstring list" where
  "reconstructions wordSep [] = [[]]"
| "reconstructions wordSep [page] = [page]"
| "reconstructions wordSep (page # next # pages) =
     concat (map (\<lambda>rest. [page @ wordSep @ rest, page @ [NEWLINE, NEWLINE] @ rest])
                 (reconstructions wordSep (next # pages)))"

text \<open>No page-breaking artifacts: in every paragraph every word (between single
  spaces) is non-empty and neither begins nor ends with white space.\<close>

definition solidWord :: "jsstring \<Rightarrow> bool" where
  "solidWord w = (w \<noteq> [] \<and> \<not> isWhiteSpace (hd w) \<and> \<not> isWhiteSpace (last w))"

definition pageBreakFree :: "jsstring \<Rightarrow> bool" where
  "pageBreakFree text =
     list_all (\<lambda>paragraph. list_all solidWord (split [SPACE] paragraph))
       (split [NEWLINE, NEWLINE] text)"

text \<open>Concrete texts: two words of 3000 and 500 letters with one space between them;
  3500 letters; 3501 letters; two words of 3000 letters each; 3500 letters followed by
  a space; a space followed by 3500 letters.\<close>

definition twoWords :: jsstring where
  "twoWords = replicate 3000 97 @ [SPACE] @ replicate 500 98"

definition fullPage :: jsstring where
  "fullPage = replicate 3500 97"

definition longWord :: jsstring where
  "longWord = replicate 3501 97"

definition trailingSpace :: jsstring where
  "trailingSpace = replicate 3500 97 @ [SPACE]"

definition leadingSpace :: jsstring where
  "leadingSpace = SPACE # replicate 3500 97"

definition twoLongWords :: jsstring where
  "twoLongWords = replicate 3000 97 @ [SPACE] @ replicate 3000 98"

text \<open>A sparkles character stands at a line start of the text: at its very start when
  \<open>atLineStart\<close> holds, or right after a line terminator.\<close>

fun markerAtLineStart :: "bool \<Rightarrow> jsstring \<Rightarrow> bool" where
  "markerAtLineStart atLineStart [] = False"
| "markerAtLineStart atLineStart (c # cs) =
     ((atLineStart \<and> c = SPARKLES) \<or> markerAtLineStart (isLineTerminator c) cs)"

text \<open>Three decorated texts: two sparkles before a letter; a rule character, a sparkles
  and a letter; a heading with a sparkles marker, a run of four newlines, a rule line and
  a marked second line.\<close>

definition doubleSparkles :: jsstring where
  "doubleSparkles = [SPARKLES, SPARKLES, 97]"

definition ruleBeforeSparkles :: jsstring where
  "ruleBeforeSparkles = [HEAVY_RULE, SPARKLES, 97]"

definition decorated :: jsstring where
  "decorated = [SPARKLES, 32, 72, 105, 10, 10, 10, 10, HEAVY_RULE, HEAVY_RULE, 10, SPARKLES, 98, 32]"

section \<open>Properties of the rate limiter\<close>

subsection \<open>Keys: the decimal rendering of a user id\<close>

lemma digitChar_table:
  "map (\<lambda>d. (of_char (digitChar d) :: nat)) [0..<10] = map (\<lambda>d. 48 + d) [0..<10]"
  by (simp add: digitChar_def upt_rec)

lemma digitChar_code:
  assumes "d < 10"
  shows "(of_char (digitChar d) :: nat) = 48 + d"
proof -
  have "map (\<lambda>d. (of_char (digitChar d) :: nat)) [0..<10] ! d = map (\<lambda>d. 48 + d) [0..<10] ! d"
    by (simp only: digitChar_table)
  then show ?thesis using assms by simp
qed

lemma nat_of_digits: "foldl (\<lambda>acc c. 10 * acc + (of_char c - 48)) 0 (string_of_nat n) = n"
proof (induction n rule: string_of_nat.induct)
  case (1 n)
  show ?case
  proof (cases "n < 10")
    case True
    then show ?thesis by (subst string_of_nat.simps) (simp add: digitChar_code)
  next
    case False
    then show ?thesis using 1
      by (subst string_of_nat.simps) (simp add: digitChar_code)
  qed
qed

lemma string_of_nat_inj: "string_of_nat m = string_of_nat n \<Longrightarrow> m = n"
  by (metis nat_of_digits)

lemma string_of_nat_digits:
  "c \<in> set (string_of_nat n) \<Longrightarrow> 48 \<le> (of_char c :: nat) \<and> (of_char c :: nat) \<le> 57"
proof (induction n rule: string_of_nat.induct)
  case (1 n)
  show ?case
  proof (cases "n < 10")
    case True
    with "1.prems" show ?thesis
      by (subst (asm) string_of_nat.simps) (auto simp: digitChar_code)
  next
    case False
    have "n mod 10 < 10" by simp
    from digitChar_code[OF this] have "48 \<le> (of_char (digitChar (n mod 10)) :: nat)
        \<and> (of_char (digitChar (n mod 10)) :: nat) \<le> 57" by simp
    with False 1 show ?thesis
      by (subst (asm) (2) string_of_nat.simps) auto
  qed
qed

lemma string_of_nat_nonempty: "string_of_nat n \<noteq> []"
  by (subst string_of_nat.simps) simp

lemma string_of_nat_no_minus: "string_of_nat n \<noteq> CHR ''-'' # s"
proof
  assume h: "string_of_nat n = CHR ''-'' # s"
  then have "CHR ''-'' \<in> set (string_of_nat n)" by simp
  from string_of_nat_digits[OF this] show False by simp
qed

lemma string_of_int_inj: "string_of_int i = string_of_int j \<Longrightarrow> i = j"
  unfolding string_of_int_def
  by (auto split: if_splits dest: string_of_nat_inj simp: string_of_nat_no_minus string_of_nat_no_minus[symmetric])

lemma colon_notin_string_of_int: "CHR '':'' \<notin> set (string_of_int i)"
proof
  assume "CHR '':'' \<in> set (string_of_int i)"
  then have "CHR '':'' \<in> set (string_of_nat (nat (- i))) \<or> CHR '':'' \<in> set (string_of_nat (nat i))"
    by (auto simp: string_of_int_def split: if_splits)
  then show False using string_of_nat_digits[of "CHR '':''"] by auto
qed

lemma takeWhile_until: "c \<notin> set s \<Longrightarrow> takeWhile (\<lambda>x. x \<noteq> c) (s @ c # r) = s"
  by (induction s) auto

lemma prefix_key_iff:
  "prefix (string_of_int u @ '':'') (limitKey u' a) \<longleftrightarrow> u' = u"
proof
  assume "prefix (string_of_int u @ '':'') (limitKey u' a)"
  then obtain z where z: "limitKey u' a = (string_of_int u @ '':'') @ z"
    by (auto simp: prefix_def)
  have "takeWhile (\<lambda>x. x \<noteq> CHR '':'') (limitKey u' a) = string_of_int u'"
    unfolding limitKey_def using takeWhile_until[OF colon_notin_string_of_int] by simp
  moreover have "takeWhile (\<lambda>x. x \<noteq> CHR '':'') ((string_of_int u @ '':'') @ z) = string_of_int u"
    using takeWhile_until[OF colon_notin_string_of_int] by simp
  ultimately have "string_of_int u' = string_of_int u" using z by simp
  then show "u' = u" by (rule string_of_int_inj)
next
  assume "u' = u" then show "prefix (string_of_int u @ '':'') (limitKey u' a)"
    by (simp add: limitKey_def)
qed

lemma key_form_iff: "(\<exists>a. k = limitKey u a) \<longleftrightarrow> prefix (string_of_int u @ '':'') k"
  by (auto simp: limitKey_def prefix_def)

lemma fold_delete_filter:
  "fold AList.delete ks al = filter (\<lambda>(k, w). k \<notin> set ks) al"
proof (induction ks arbitrary: al)
  case Nil then show ?case by simp
next
  case (Cons k ks)
  have "fold AList.delete (k # ks) al = fold AList.delete ks (AList.delete k al)" by simp
  also have "\<dots> = filter (\<lambda>(k', w). k' \<notin> set ks) (AList.delete k al)" by (rule Cons.IH)
  also have "\<dots> = filter (\<lambda>(k', w). k' \<notin> set (k # ks)) al"
    by (auto simp: AList.delete_eq intro: filter_cong)
  finally show ?case .
qed

lemma resetUserLimits_limits:
  "limits (resetUserLimits svc u None) =
     filter (\<lambda>(k, w). \<not> prefix (string_of_int u @ '':'') k) (limits svc)"
proof -
  have "filter (\<lambda>(k, w). k \<notin> set (filter (\<lambda>key. prefix (string_of_int u @ '':'') key)
                 (map fst (limits svc)))) (limits svc)
        = filter (\<lambda>(k, w). \<not> prefix (string_of_int u @ '':'') k) (limits svc)"
    by (rule filter_cong) force+
  then show ?thesis
    by (simp add: resetUserLimits_def Let_def fold_delete_filter)
qed

lemma map_of_filter_key:
  "map_of (filter (\<lambda>(k, w). P k) al) k = (if P k then map_of al k else None)"
  by (induction al) auto

text \<open>
  Claim C10.  \<open>resetUserLimits(u)\<close> without an action removes exactly the windows whose
  key has the form \<open>u:action\<close> and keeps the order of the others; the windows of every
  other user (also one whose decimal id extends \<open>u\<close>'s, as 123 extends 12), the VIP set
  and the rule table are unchanged.
\<close>

theorem resetUserLimits_frame:
  "limits (resetUserLimits svc u None) =
      filter (\<lambda>(k, w). \<not> (\<exists>a. k = limitKey u a)) (limits svc)
   \<and> (\<forall>a. map_of (limits (resetUserLimits svc u None)) (limitKey u a) = None)
   \<and> (\<forall>u' a. u' \<noteq> u \<longrightarrow>
         map_of (limits (resetUserLimits svc u None)) (limitKey u' a)
           = map_of (limits svc) (limitKey u' a))
   \<and> vipUsers (resetUserLimits svc u None) = vipUsers svc
   \<and> rules (resetUserLimits svc u None) = rules svc"
proof (intro conjI allI impI)
  show "limits (resetUserLimits svc u None) =
      filter (\<lambda>(k, w). \<not> (\<exists>a. k = limitKey u a)) (limits svc)"
    by (simp add: resetUserLimits_limits key_form_iff)
  show "map_of (limits (resetUserLimits svc u None)) (limitKey u a) = None" for a
    by (simp add: resetUserLimits_limits map_of_filter_key prefix_key_iff)
  show "map_of (limits (resetUserLimits svc u None)) (limitKey u' a)
           = map_of (limits svc) (limitKey u' a)" if "u' \<noteq> u" for u' a
    using that by (simp add: resetUserLimits_limits map_of_filter_key prefix_key_iff)
  show "vipUsers (resetUserLimits svc u None) = vipUsers svc"
    by (simp add: resetUserLimits_def Let_def)
  show "rules (resetUserLimits svc u None) = rules svc"
    by (simp add: resetUserLimits_def Let_def)
qed

lemma limitKey_123_text_message: "limitKey 123 ''text_message'' = ''123:text_message''"
  by (simp add: limitKey_def string_of_int_def string_of_nat.simps digitChar_def)

lemma limitKey_12_global: "limitKey 12 ''global'' = ''12:global''"
  by (simp add: limitKey_def string_of_int_def string_of_nat.simps digitChar_def)

theorem resetUserLimits_frame_witness:
  "map_of (limits (resetUserLimits
      \<lparr>limits = [(''12:text_message'', window12), (''123:text_message'', window123), (''12:global'', window12)],
        rules = defaultRules, vipUsers = {5}\<rparr> 12 None)) (limitKey 123 ''text_message'') = Some window123
   \<and> map_of (limits (resetUserLimits
      \<lparr>limits = [(''12:text_message'', window12), (''123:text_message'', window123), (''12:global'', window12)],
        rules = defaultRules, vipUsers = {5}\<rparr> 12 None)) (limitKey 12 ''global'') = None"
proof -
  let ?S = "\<lparr>limits = [(''12:text_message'', window12), (''123:text_message'', window123), (''12:global'', window12)],
        rules = defaultRules, vipUsers = {5}\<rparr>"
  have ne: "(123::int) \<noteq> 12" by simp
  from resetUserLimits_frame[of ?S 12] ne
  have "map_of (limits (resetUserLimits ?S 12 None)) (limitKey 123 ''text_message'')
          = map_of (limits ?S) (limitKey 123 ''text_message'')"
    and "map_of (limits (resetUserLimits ?S 12 None)) (limitKey 12 ''global'') = None"
    by blast+
  then show ?thesis by (simp add: limitKey_123_text_message)
qed

subsection \<open>One window of \<open>checkLimit\<close>\<close>

lemma ruleFor_rules: "rules svc' = rules svc \<Longrightarrow> ruleFor svc' a = ruleFor svc a"
  by (simp add: ruleFor_def)

lemmas rule_reads =
  maxRequestsOf_def windowMsOf_def blockDurationMsOf_def plusMs_def isAfter_def reaches_def
  minusCount_def

lemma checkLimit_in_window_allowed:
  assumes "ruleFor svc a = RuleObject r"
    and "map_of (limits svc) (limitKey u a) = Some ul"
    and "blockedUntil ul = None"
    and "resetTime ul = Num e" and "now \<le> e"
    and "count ul < maxRequests r"
  shows "\<exists>res svc'. checkLimit svc u a now = Inr (res, svc')
           \<and> allowed res
           \<and> remaining res = Num (int (maxRequests r) - int (count ul + 1))
           \<and> map_of (limits svc') (limitKey u a) = Some (ul\<lparr>count := count ul + 1\<rparr>)
           \<and> rules svc' = rules svc"
  using assms
  by (simp add: checkLimit_def Let_def isBlocked_def truthy_def update_conv' rule_reads)

lemma checkLimit_in_window_rejected:
  assumes "ruleFor svc a = RuleObject r"
    and "map_of (limits svc) (limitKey u a) = Some ul"
    and "blockedUntil ul = None"
    and "resetTime ul = Num e" and "now \<le> e"
    and "maxRequests r \<le> count ul"
    and "blockDurationMs r = Some d" and "d \<noteq> 0"
  shows "\<exists>res svc'. checkLimit svc u a now = Inr (res, svc')
           \<and> \<not> allowed res \<and> remaining res = Num 0
           \<and> resultBlockedUntil res = Some (now + d)"
  using assms
  by (simp add: checkLimit_def Let_def isBlocked_def truthy_def update_conv' rule_reads)

lemma checkLimit_fresh_window:
  assumes "ruleFor svc a = RuleObject r"
    and "case map_of (limits svc) (limitKey u a) of
           None \<Rightarrow> True
         | Some ul \<Rightarrow> isAfter now (resetTime ul) \<and> \<not> isBlocked (Some ul) now"
    and "0 < maxRequests r"
  shows "\<exists>res svc' ul'. checkLimit svc u a now = Inr (res, svc')
           \<and> allowed res
           \<and> remaining res = Num (int (maxRequests r) - 1)
           \<and> map_of (limits svc') (limitKey u a) = Some ul'
           \<and> count ul' = 1 \<and> blockedUntil ul' = None
           \<and> resetTime ul' = Num (now + windowMs r)
           \<and> rules svc' = rules svc"
  using assms
  by (auto simp add: checkLimit_def Let_def update_conv' isBlocked_def rule_reads
      split: option.splits)

lemma checkLimit_fresh_rejected:
  assumes "ruleFor svc a = RuleObject r"
    and "case map_of (limits svc) (limitKey u a) of
           None \<Rightarrow> True
         | Some ul \<Rightarrow> isAfter now (resetTime ul) \<and> \<not> isBlocked (Some ul) now"
    and "maxRequests r = 0"
    and "blockDurationMs r = Some d" and "d \<noteq> 0"
  shows "\<exists>res svc'. checkLimit svc u a now = Inr (res, svc')
           \<and> \<not> allowed res \<and> remaining res = Num 0
           \<and> resultBlockedUntil res = Some (now + d)"
  using assms
  by (auto simp add: checkLimit_def Let_def update_conv' truthy_def isBlocked_def rule_reads
      split: option.splits)

lemma checkLimits_append:
  "checkLimits svc u a (xs @ ys) =
     (case checkLimits svc u a xs of
        Inl e \<Rightarrow> Inl e
      | Inr (rs, s1) \<Rightarrow>
         (case checkLimits s1 u a ys of
            Inl e \<Rightarrow> Inl e
          | Inr (rs2, s2) \<Rightarrow> Inr (rs @ rs2, s2)))"
  by (induction xs arbitrary: svc) (auto split: sum.splits)

lemma checkLimits_in_window:
  assumes "ruleFor svc a = RuleObject r"
    and "map_of (limits svc) (limitKey u a) = Some ul"
    and "blockedUntil ul = None"
    and "resetTime ul = Num e"
    and "\<forall>t\<in>set ts. t \<le> e"
    and "count ul + length ts \<le> maxRequests r"
  shows "\<exists>rs svc' ul'. checkLimits svc u a ts = Inr (rs, svc')
           \<and> length rs = length ts
           \<and> (\<forall>i<length ts. allowed (rs ! i)
                 \<and> remaining (rs ! i) = Num (int (maxRequests r) - int (count ul + i + 1)))
           \<and> map_of (limits svc') (limitKey u a) = Some ul'
           \<and> count ul' = count ul + length ts
           \<and> blockedUntil ul' = None
           \<and> resetTime ul' = resetTime ul
           \<and> rules svc' = rules svc"
  using assms
proof (induction ts arbitrary: svc ul)
  case Nil
  then show ?case by simp
next
  case (Cons t ts)
  from Cons.prems have lt: "count ul < maxRequests r" and tle: "t \<le> e" by auto
  from checkLimit_in_window_allowed[OF Cons.prems(1,2,3,4) tle lt]
  obtain res svc1 where
    S: "checkLimit svc u a t = Inr (res, svc1)
      \<and> allowed res \<and> remaining res = Num (int (maxRequests r) - int (count ul + 1))
      \<and> map_of (limits svc1) (limitKey u a) = Some (ul\<lparr>count := count ul + 1\<rparr>)
      \<and> rules svc1 = rules svc"
    by (elim exE) (rule that)
  then have step: "checkLimit svc u a t = Inr (res, svc1)"
    and res: "allowed res" "remaining res = Num (int (maxRequests r) - int (count ul + 1))"
    and m1: "map_of (limits svc1) (limitKey u a) = Some (ul\<lparr>count := count ul + 1\<rparr>)"
    and r1: "rules svc1 = rules svc"
    by simp_all
  let ?ul1 = "ul\<lparr>count := count ul + 1\<rparr>"
  have rf1: "ruleFor svc1 a = RuleObject r" using ruleFor_rules[OF r1] Cons.prems(1) by simp
  have b1: "blockedUntil ?ul1 = None" using Cons.prems(3) by simp
  have e1: "resetTime ?ul1 = Num e" using Cons.prems(4) by simp
  have t1: "\<forall>t\<in>set ts. t \<le> e" using Cons.prems(5) by simp
  have c1: "count ?ul1 + length ts \<le> maxRequests r" using Cons.prems(6) by simp
  from Cons.IH[OF rf1 m1 b1 e1 t1 c1]
  obtain rs svc2 ul2 where
    IH: "checkLimits svc1 u a ts = Inr (rs, svc2)
       \<and> length rs = length ts
       \<and> (\<forall>i<length ts. allowed (rs ! i)
                 \<and> remaining (rs ! i) = Num (int (maxRequests r) - int (count ?ul1 + i + 1)))
       \<and> map_of (limits svc2) (limitKey u a) = Some ul2
       \<and> count ul2 = count ?ul1 + length ts
       \<and> blockedUntil ul2 = None
       \<and> resetTime ul2 = resetTime ?ul1
       \<and> rules svc2 = rules svc1"
    by (elim exE) (rule that)
  then have run: "checkLimits svc1 u a ts = Inr (rs, svc2)"
    and len: "length rs = length ts"
    and each: "\<forall>i<length ts. allowed (rs ! i)
                 \<and> remaining (rs ! i) = Num (int (maxRequests r) - int (count ?ul1 + i + 1))"
    and m2: "map_of (limits svc2) (limitKey u a) = Some ul2"
    and c2: "count ul2 = count ?ul1 + length ts"
    and b2: "blockedUntil ul2 = None"
    and t2: "resetTime ul2 = resetTime ?ul1"
    and r2: "rules svc2 = rules svc1"
    by simp_all
  have all: "\<forall>i<length (t # ts). allowed ((res # rs) ! i)
                 \<and> remaining ((res # rs) ! i)
                    = Num (int (maxRequests r) - int (count ul + i + 1))"
  proof (intro allI impI)
    fix i assume "i < length (t # ts)"
    show "allowed ((res # rs) ! i)
                 \<and> remaining ((res # rs) ! i)
                    = Num (int (maxRequests r) - int (count ul + i + 1))"
    proof (cases i)
      case 0 then show ?thesis using res by simp
    next
      case (Suc j)
      with \<open>i < length (t # ts)\<close> have "j < length ts" by simp
      with each Suc show ?thesis by simp
    qed
  qed
  have "checkLimits svc u a (t # ts) = Inr (res # rs, svc2)"
    using step run by simp
  moreover have "length (res # rs) = length (t # ts)" using len by simp
  moreover have "count ul2 = count ul + length (t # ts)" using c2 by simp
  moreover have "resetTime ul2 = resetTime ul" using t2 by simp
  moreover have "rules svc2 = rules svc" using r2 r1 by simp
  ultimately show ?case using all m2 b2 by blast
qed

text \<open>
  Claim C4, as amended.  Take a user who is not in the VIP set and an action whose rule,
  the value of \<open>this.rules[action] || this.rules.global\<close>, is a rule object with
  \<open>maxRequests = max\<close> and a block duration that is defined and not zero.  Starting
  where the user has no window for the action (or an expired one and no running block),
  the first call opens a window; of \<open>max + 1\<close> calls that all fall into this window the
  \<open>N\<close>th (\<open>1 \<le> N \<le> max\<close>) is allowed with \<open>remaining = max - N\<close>, and the last is
  rejected with \<open>blockedUntil\<close> set to its own time plus the block duration.
\<close>

theorem checkLimit_window_monotonic:
  assumes user: "\<not> isVipUser svc u"
    and rule: "ruleFor svc a = RuleObject r"
    and block: "blockDurationMs r = Some d" "d \<noteq> 0"
    and start: "case map_of (limits svc) (limitKey u a) of
                  None \<Rightarrow> True
                | Some ul \<Rightarrow> isAfter t0 (resetTime ul) \<and> \<not> isBlocked (Some ul) t0"
    and len: "length ts = maxRequests r"
    and window: "\<forall>t\<in>set ts. t \<le> t0 + windowMs r"
  shows "\<exists>rs svc'. checkLimits svc u a (t0 # ts) = Inr (rs, svc')
           \<and> length rs = maxRequests r + 1
           \<and> (\<forall>N. 1 \<le> N \<and> N \<le> maxRequests r \<longrightarrow>
                 allowed (rs ! (N - 1))
                 \<and> remaining (rs ! (N - 1)) = Num (int (maxRequests r) - int N))
           \<and> \<not> allowed (rs ! maxRequests r)
           \<and> resultBlockedUntil (rs ! maxRequests r) = Some (last (t0 # ts) + d)"
proof (cases "maxRequests r = 0")
  case True
  with len have ts: "ts = []" by simp
  from checkLimit_fresh_rejected[OF rule start True block]
  show ?thesis using True ts by auto
next
  case False
  then have pos: "0 < maxRequests r" by simp
  with len obtain ts1 tl where ts: "ts = ts1 @ [tl]"
    by (cases ts rule: rev_cases) auto
  from checkLimit_fresh_window[OF rule start pos]
  obtain res0 svc1 ul1 where
    s0: "checkLimit svc u a t0 = Inr (res0, svc1)"
    and res0: "allowed res0" "remaining res0 = Num (int (maxRequests r) - 1)"
    and m1: "map_of (limits svc1) (limitKey u a) = Some ul1"
    and u1: "count ul1 = 1" "blockedUntil ul1 = None" "resetTime ul1 = Num (t0 + windowMs r)"
    and r1: "rules svc1 = rules svc"
    by blast
  have rf1: "ruleFor svc1 a = RuleObject r" using ruleFor_rules[OF r1] rule by simp
  have w1: "\<forall>t\<in>set ts1. t \<le> t0 + windowMs r" using window ts by simp
  have c1: "count ul1 + length ts1 \<le> maxRequests r" using len ts u1 by simp
  from checkLimits_in_window[OF rf1 m1 u1(2) u1(3) w1 c1]
  obtain rs svc2 ul2 where
    run: "checkLimits svc1 u a ts1 = Inr (rs, svc2)"
    and lrs: "length rs = length ts1"
    and each: "\<forall>i<length ts1. allowed (rs ! i)
                 \<and> remaining (rs ! i) = Num (int (maxRequests r) - int (count ul1 + i + 1))"
    and m2: "map_of (limits svc2) (limitKey u a) = Some ul2"
    and u2: "count ul2 = count ul1 + length ts1" "blockedUntil ul2 = None"
            "resetTime ul2 = resetTime ul1"
    and r2: "rules svc2 = rules svc1"
    by blast
  have rf2: "ruleFor svc2 a = RuleObject r" using ruleFor_rules[OF r2] rf1 by simp
  have e2: "resetTime ul2 = Num (t0 + windowMs r)" using u1 u2 by simp
  have tl: "tl \<le> t0 + windowMs r" using window ts by simp
  have full: "maxRequests r \<le> count ul2" using u2 u1 len ts by simp
  from checkLimit_in_window_rejected[OF rf2 m2 u2(2) e2 tl full block]
  obtain resL svc3 where
    sl: "checkLimit svc2 u a tl = Inr (resL, svc3)"
    and resL: "\<not> allowed resL" "resultBlockedUntil resL = Some (tl + d)"
    by blast
  let ?rs = "res0 # rs @ [resL]"
  have eq: "checkLimits svc u a (t0 # ts) = Inr (?rs, svc3)"
    using s0 run sl by (simp add: ts checkLimits_append)
  have n: "length ts1 + 1 = maxRequests r" using len ts by simp
  have lall: "length ?rs = maxRequests r + 1" using lrs n by simp
  have allowed_all: "\<forall>N. 1 \<le> N \<and> N \<le> maxRequests r \<longrightarrow>
                 allowed (?rs ! (N - 1))
                 \<and> remaining (?rs ! (N - 1)) = Num (int (maxRequests r) - int N)"
  proof (intro allI impI)
    fix N assume N: "1 \<le> N \<and> N \<le> maxRequests r"
    show "allowed (?rs ! (N - 1))
            \<and> remaining (?rs ! (N - 1)) = Num (int (maxRequests r) - int N)"
    proof (cases "N = 1")
      case True then show ?thesis using res0 by simp
    next
      case False
      define j where "j = N - 2"
      from False N n have j: "N = j + 2" "j < length ts1" unfolding j_def by arith+
      then have "?rs ! (N - 1) = rs ! j" using lrs by (simp add: nth_append)
      with each j u1 show ?thesis by simp
    qed
  qed
  have lastq: "?rs ! maxRequests r = resL" using lrs
    by (simp add: n[symmetric] nth_append)
  have lastt: "last (t0 # ts) = tl" using ts by simp
  show ?thesis using eq lall allowed_all lastq resL lastt by simp
qed

lemma ruleFor_settings_change:
  "ruleFor newRateLimitService ''settings_change''
     = RuleObject \<lparr>maxRequests = 5, windowMs = 60000, blockDurationMs = Some 60000\<rparr>"
  by (simp add: ruleFor_def getProperty_def truthyValue_def newRateLimitService_def
      defaultRules_def)

theorem checkLimit_window_monotonic_witness:
  "\<not> isVipUser newRateLimitService 7
   \<and> ruleFor newRateLimitService ''settings_change''
      = RuleObject \<lparr>maxRequests = 5, windowMs = 60000, blockDurationMs = Some 60000\<rparr>
   \<and> (\<exists>rs svc'. checkLimits newRateLimitService 7 ''settings_change''
            [1000, 1001, 1002, 1003, 1004, 61000] = Inr (rs, svc')
        \<and> length rs = 6
        \<and> (\<forall>N. 1 \<le> N \<and> N \<le> 5 \<longrightarrow>
              allowed (rs ! (N - 1)) \<and> remaining (rs ! (N - 1)) = Num (5 - int N))
        \<and> \<not> allowed (rs ! 5)
        \<and> resultBlockedUntil (rs ! 5) = Some 121000)"
proof -
  let ?r = "\<lparr>maxRequests = 5, windowMs = 60000, blockDurationMs = Some 60000\<rparr>"
  have user: "\<not> isVipUser newRateLimitService 7"
    by (simp add: isVipUser_def newRateLimitService_def)
  have rule: "ruleFor newRateLimitService ''settings_change'' = RuleObject ?r"
    by (rule ruleFor_settings_change)
  have block: "blockDurationMs ?r = Some 60000" "(60000::int) \<noteq> 0" by simp_all
  have start: "case map_of (limits newRateLimitService) (limitKey 7 ''settings_change'') of
                  None \<Rightarrow> True
                | Some ul \<Rightarrow> isAfter 1000 (resetTime ul) \<and> \<not> isBlocked (Some ul) 1000"
    by (simp add: newRateLimitService_def)
  have len: "length [1001, 1002, 1003, 1004, 61000::int] = maxRequests ?r" by simp
  have window: "\<forall>t\<in>set [1001, 1002, 1003, 1004, 61000::int]. t \<le> 1000 + windowMs ?r" by simp
  from checkLimit_window_monotonic[OF user rule block start len window] user rule
  show ?thesis by simp
qed

text \<open>
  An action whose name is a property that the \<open>rules\<close> object inherits gets that
  property as its rule, not the global rule: the value is truthy and has no
  \<open>maxRequests\<close>, so no call is ever rejected and \<open>remaining\<close> is \<open>NaN\<close>.  An
  unknown action of any other name gets the global rule.
\<close>

lemma ruleFor_inherited_name:
  "ruleFor newRateLimitService ''toString'' = BuiltIn
   \<and> ruleFor newRateLimitService ''unknown_action''
       = RuleObject \<lparr>maxRequests = 50, windowMs = 3600000, blockDurationMs = Some 1800000\<rparr>"
  by (simp add: ruleFor_def getProperty_def truthyValue_def newRateLimitService_def
      defaultRules_def objectPrototypeNames_def)

lemma checkLimit_without_rule_object:
  assumes "ruleFor svc a = BuiltIn \<or> ruleFor svc a = NumberValue n"
    and "\<not> isBlocked (map_of (limits svc) (limitKey u a)) now"
  shows "\<exists>res svc'. checkLimit svc u a now = Inr (res, svc')
           \<and> allowed res \<and> remaining res = NaN \<and> rules svc' = rules svc"
  using assms
  by (auto simp add: checkLimit_def Let_def rule_reads)

lemma checkLimits_without_rule_object:
  assumes "ruleFor svc a = BuiltIn"
    and "map_of (limits svc) (limitKey u a) = None"
  shows "\<exists>rs svc'. checkLimits svc u a ts = Inr (rs, svc')
           \<and> length rs = length ts \<and> list_all allowed rs"
proof -
  have "\<exists>rs svc'. checkLimits s u a ts = Inr (rs, svc')
           \<and> length rs = length ts \<and> list_all allowed rs"
    if "ruleFor s a = BuiltIn"
      and "case map_of (limits s) (limitKey u a) of
             None \<Rightarrow> True | Some ul \<Rightarrow> blockedUntil ul = None"
    for s
    using that
  proof (induction ts arbitrary: s)
    case Nil
    then show ?case by simp
  next
    case (Cons t ts)
    have step: "\<exists>res s1. checkLimit s u a t = Inr (res, s1) \<and> allowed res
                  \<and> rules s1 = rules s
                  \<and> (case map_of (limits s1) (limitKey u a) of
                        None \<Rightarrow> True | Some ul \<Rightarrow> blockedUntil ul = None)"
      using Cons.prems
      by (auto simp add: checkLimit_def Let_def update_conv' isBlocked_def truthy_def rule_reads
          split: option.splits)
    then obtain res s1 where
      c: "checkLimit s u a t = Inr (res, s1)" and al: "allowed res"
      and r1: "rules s1 = rules s"
      and b1: "case map_of (limits s1) (limitKey u a) of
                 None \<Rightarrow> True | Some ul \<Rightarrow> blockedUntil ul = None"
      by blast
    have rf1: "ruleFor s1 a = BuiltIn" using ruleFor_rules[OF r1] Cons.prems(1) by simp
    from Cons.IH[OF rf1 b1] obtain rs s2 where
      run: "checkLimits s1 u a ts = Inr (rs, s2)" and l: "length rs = length ts"
      and a: "list_all allowed rs" by blast
    have "checkLimits s u a (t # ts) = Inr (res # rs, s2)" using c run by simp
    then show ?case using l a al by simp
  qed
  from this[OF assms(1)] assms(2) show ?thesis by simp
qed

text \<open>
  The claim as stated fails at two inputs.  It asks only that the block duration be
  defined, and the source tests \<open>if (rule.blockDurationMs)\<close>: under a rule with
  \<open>maxRequests = 1\<close> and a block duration of \<open>0\<close> the second call of the window is
  rejected and carries no \<open>blockedUntil\<close>.  And for the action name \<open>toString\<close>, where
  the global rule (50 per window) should apply, the 51st call of a window is allowed.
\<close>

theorem checkLimit_window_counterexample:
  "\<not> isVipUser (updateRule newRateLimitService ''text_message''
          \<lparr>maxRequests = 1, windowMs = 60000, blockDurationMs = Some 0\<rparr>) 7
   \<and> ruleFor (updateRule newRateLimitService ''text_message''
          \<lparr>maxRequests = 1, windowMs = 60000, blockDurationMs = Some 0\<rparr>) ''text_message''
       = RuleObject \<lparr>maxRequests = 1, windowMs = 60000, blockDurationMs = Some 0\<rparr>
   \<and> map allowed (resultsOf (checkLimits
       (updateRule newRateLimitService ''text_message''
          \<lparr>maxRequests = 1, windowMs = 60000, blockDurationMs = Some 0\<rparr>)
       7 ''text_message'' [1000, 1001])) = [True, False]
   \<and> map resultBlockedUntil (resultsOf (checkLimits
       (updateRule newRateLimitService ''text_message''
          \<lparr>maxRequests = 1, windowMs = 60000, blockDurationMs = Some 0\<rparr>)
       7 ''text_message'' [1000, 1001])) = [None, None]
   \<and> \<not> isVipUser newRateLimitService 7
   \<and> ruleFor newRateLimitService ''toString'' = BuiltIn
   \<and> map allowed (resultsOf (checkLimits newRateLimitService 7 ''toString''
         (replicate 51 1000))) = replicate 51 True
   \<and> remaining (last (resultsOf (checkLimits newRateLimitService 7 ''toString''
         (replicate 51 1000)))) = NaN"
  by code_simp

text \<open>The result of \<open>checkLimit\<close> and the windows it leaves do not depend on the
  VIP set.\<close>

lemma checkLimit_ignores_vip:
  "map_sum id (\<lambda>(r, s). (r, limits s)) (checkLimit (svc\<lparr>vipUsers := V\<rparr>) u a now)
     = map_sum id (\<lambda>(r, s). (r, limits s)) (checkLimit svc u a now)"
proof -
  have "ruleFor (svc\<lparr>vipUsers := V\<rparr>) a = ruleFor svc a" by (simp add: ruleFor_def)
  then show ?thesis by (simp add: checkLimit_def Let_def)
qed

text \<open>
  Claim C2 (VIP users are never rejected by \<open>checkLimit\<close> and the call writes nothing).
  \<open>checkLimit\<close> does not consult \<open>vipUsers\<close>; only \<open>createMiddleware\<close> does.  The
  image handler calls \<open>checkLimit\<close> directly, so for the VIP user 7 under the shipped
  rule for \<open>image_processing\<close> (10 per window) the first call already stores a window and
  the eleventh call of the window is rejected.
\<close>

theorem checkLimit_vip_rejected:
  "isVipUser (addVipUser newRateLimitService 7) 7
   \<and> map allowed (resultsOf (checkLimits (addVipUser newRateLimitService 7) 7 ''image_processing''
        [1000, 2000, 3000, 4000, 5000, 6000, 7000, 8000, 9000, 10000, 11000]))
      = [True, True, True, True, True, True, True, True, True, True, False]
   \<and> map fst (limits (addVipUser newRateLimitService 7)) = []
   \<and> map_sum id (map fst \<circ> limits \<circ> snd) (checkLimit (addVipUser newRateLimitService 7) 7 ''image_processing'' 1000)
       = Inr [''7:image_processing'']"
  by code_simp

text \<open>What the code does guarantee for a VIP user: the middleware lets the update pass
  without calling \<open>checkLimit\<close>, and the service is unchanged.\<close>

lemma createMiddleware_vip:
  "isVipUser svc u \<Longrightarrow> createMiddleware action svc (Some u) now = Inr (Next, svc)"
  by (simp add: createMiddleware_def)

section \<open>Properties of the upstream client\<close>

subsection \<open>The scheduler\<close>



lemma length_remove1_running:
  "call \<in> set xs \<Longrightarrow> length (remove1 call xs) = length xs - 1"
  by (simp add: length_remove1)






subsection \<open>Attempts of one call\<close>

text \<open>A status that is neither 2xx, 429 nor 5xx makes the attempt throw
  \<open>OpenRouterError\<close>; the loop's \<open>catch\<close> takes it like any other error, sleeps and goes
  on with the next attempt.\<close>

lemma attemptOnce_client_error:
  "\<not> (200 \<le> status \<and> status \<le> 299) \<Longrightarrow> status \<noteq> 429 \<Longrightarrow> status < 500 \<Longrightarrow>
     attemptOnce (Response status body json) = Inl (OpenRouterError status body)"
  by (simp add: attemptOnce_def)

lemma attemptLoop_first_client_error:
  assumes "upstream 0 = Response status body json"
    and "400 \<le> status" and "status < 500" and "status \<noteq> 429"
  shows "callOpenRouterBody upstream svc =
           attemptLoop upstream 1 (Some (OpenRouterError status body))
             (svc\<lparr>totalRequests := totalRequests svc + 1, totalErrors := totalErrors svc + 1\<rparr>)
             [400]"
  using assms
  by (simp add: callOpenRouterBody_def attemptLoop.simps[of upstream 0] attemptOnce_def Let_def)

text \<open>
  Claim C3 (a 4xx status other than 429 fails the call at once, without further
  attempts).  The code throws the error for such a status inside the \<open>try\<close> block of
  the retry loop, so its own \<open>catch\<close> retries it: an upstream that always answers 400
  is called three times with sleeps of 400 and 800 ms before the call fails, and a 400
  followed by a good answer makes the call succeed.
\<close>

theorem callOpenRouter_retries_client_error:
  "callOpenRouterBody alwaysBadRequest newOpenRouterService
     = (Inl (GaveUp (OpenRouterError 400 ''bad request'')),
        \<lparr>totalRequests = 3, totalErrors = 3, currentRequests = 0, requestQueue = []\<rparr>,
        [400, 800])
   \<and> callOpenRouterBody badRequestThenOk newOpenRouterService
     = (Inr [111, 107],
        \<lparr>totalRequests = 2, totalErrors = 1, currentRequests = 0, requestQueue = []\<rparr>,
        [400])"
  by (simp add: callOpenRouterBody_def attemptLoop.simps attemptOnce_def Let_def
      alwaysBadRequest_def badRequestThenOk_def newOpenRouterService_def
      extractContentText_def trim_def isWhiteSpace_def isLineTerminator_def)

section \<open>Properties of the image processor\<close>

lemma fails_cases:
  "fails cfg env a \<Longrightarrow>
     \<exists>err. raceWithTimeout (requestTimeout cfg) (env a) = (Rejects err, elapsedOf cfg env a)
           \<and> thrownAt cfg env a = Some err"
  by (cases "raceWithTimeout (requestTimeout cfg) (env a)")
     (auto simp: fails_def elapsedOf_def thrownAt_def split: settled.splits)

lemma executeLoop_exit:
  "maxRetries cfg < k \<Longrightarrow>
     executeLoop cfg env st k le now made sleeps =
       (Inr \<lparr>success = False, result = None,
             error = Some (FailedAfter (maxRetries cfg) (errorMessageOf le)),
             processingTime = now - st\<rparr>, made, sleeps)"
  by (simp add: executeLoop.simps)

lemma executeLoop_fail_step:
  assumes "k \<le> maxRetries cfg" and "failsReadably cfg env k"
  shows "executeLoop cfg env st k le now made sleeps =
           (if k < maxRetries cfg
            then executeLoop cfg env st (k + 1) (thrownAt cfg env k)
                   (now + elapsedOf cfg env k + backoff k + lateness (env k)) (made + 1)
                   (sleeps @ [backoff k])
            else executeLoop cfg env st (k + 1) (thrownAt cfg env k)
                   (now + elapsedOf cfg env k) (made + 1) sleeps)"
proof -
  from assms(2) have f: "fails cfg env k" and nn: "thrownAt cfg env k \<noteq> Some NullOrUndefined"
    by (simp_all add: failsReadably_def)
  from fails_cases[OF f] obtain err where
    r: "raceWithTimeout (requestTimeout cfg) (env k) = (Rejects err, elapsedOf cfg env k)"
    and t: "thrownAt cfg env k = Some err" by blast
  from nn t have e: "err \<noteq> NullOrUndefined" by simp
  show ?thesis
    unfolding t using assms(1) e
    by (subst executeLoop.simps) (simp add: r Let_def backoff_def)
qed

text \<open>An attempt rejected with \<open>undefined\<close> or \<open>null\<close> ends the method at once, with a
  \<open>TypeError\<close> in place of a result.\<close>

lemma executeLoop_null_step:
  assumes "k \<le> maxRetries cfg" and "thrownAt cfg env k = Some NullOrUndefined"
  shows "executeLoop cfg env st k le now made sleeps = (Inl TypeError, made + 1, sleeps)"
proof -
  from assms(2) have "fails cfg env k"
    by (auto simp: fails_def thrownAt_def split: settled.splits)
  from fails_cases[OF this] assms(2)
  have r: "raceWithTimeout (requestTimeout cfg) (env k)
             = (Rejects NullOrUndefined, elapsedOf cfg env k)" by auto
  show ?thesis using assms(1)
    by (subst executeLoop.simps) (simp add: r Let_def)
qed

lemma executeLoop_all_fail:
  assumes "\<forall>a. k \<le> a \<and> a \<le> maxRetries cfg \<longrightarrow> failsReadably cfg env a"
    and "k \<le> maxRetries cfg + 1"
  shows "executeLoop cfg env st k le now made sleeps =
           (Inr \<lparr>success = False, result = None,
             error = Some (FailedAfter (maxRetries cfg)
                       (errorMessageOf (if k \<le> maxRetries cfg
                                        then thrownAt cfg env (maxRetries cfg) else le))),
             processingTime =
               now + (\<Sum>a = k..maxRetries cfg. elapsedOf cfg env a)
                   + (\<Sum>a = k..<maxRetries cfg. backoff a + lateness (env a)) - st\<rparr>,
            made + (maxRetries cfg + 1 - k),
            sleeps @ map backoff [k..<maxRetries cfg])"
  using assms
proof (induction "maxRetries cfg + 1 - k" arbitrary: k le now made sleeps)
  case 0
  then have "maxRetries cfg < k" by simp
  then show ?case by (simp add: executeLoop_exit)
next
  case (Suc m)
  then have kn: "k \<le> maxRetries cfg" by simp
  with Suc.prems have fk: "failsReadably cfg env k" by simp
  have m: "m = maxRetries cfg + 1 - (k + 1)" using Suc.hyps(2) by simp
  have rest: "\<forall>a. k + 1 \<le> a \<and> a \<le> maxRetries cfg \<longrightarrow> failsReadably cfg env a"
    using Suc.prems(1) by simp
  have b: "k + 1 \<le> maxRetries cfg + 1" using kn by simp
  note IH = Suc.hyps(1)[OF m rest b]
  show ?case
  proof (cases "k < maxRetries cfg")
    case True
    then have s1: "(\<Sum>a = k..maxRetries cfg. elapsedOf cfg env a)
                 = elapsedOf cfg env k + (\<Sum>a = k + 1..maxRetries cfg. elapsedOf cfg env a)"
      by (simp add: sum.atLeast_Suc_atMost)
    from True have s2: "(\<Sum>a = k..<maxRetries cfg. backoff a + lateness (env a))
                 = backoff k + lateness (env k)
                   + (\<Sum>a = k + 1..<maxRetries cfg. backoff a + lateness (env a))"
      by (simp add: sum.atLeast_Suc_lessThan)
    from True have s3: "[k..<maxRetries cfg] = k # [k + 1..<maxRetries cfg]"
      by (simp add: upt_conv_Cons)
    have a1: "now + elapsedOf cfg env k + backoff k + lateness (env k)
               + (\<Sum>a = k + 1..maxRetries cfg. elapsedOf cfg env a)
               + (\<Sum>a = k + 1..<maxRetries cfg. backoff a + lateness (env a)) - st
            = now + (elapsedOf cfg env k
                     + (\<Sum>a = k + 1..maxRetries cfg. elapsedOf cfg env a))
                  + (backoff k + lateness (env k)
                     + (\<Sum>a = k + 1..<maxRetries cfg. backoff a + lateness (env a))) - st"
      by arith
    have a2: "made + 1 + (maxRetries cfg + 1 - (k + 1)) = made + (maxRetries cfg + 1 - k)"
      using True by arith
    show ?thesis
      unfolding executeLoop_fail_step[OF kn fk] IH s1 s2 s3 a1 a2
      using True by simp
  next
    case False
    with kn have eq: "k = maxRetries cfg" by simp
    show ?thesis
      unfolding executeLoop_fail_step[OF kn fk] IH
      using eq by simp
  qed
qed

lemma backoff_sum_lower:
  "2 \<le> n \<Longrightarrow> 1000 \<le> (\<Sum>a = 1..<n. backoff a + lateness (env a))"
proof -
  assume "2 \<le> n"
  then have "(\<Sum>a = 1..<n. backoff a + lateness (env a))
        = backoff 1 + lateness (env 1) + (\<Sum>a = 2..<n. backoff a + lateness (env a))"
    by (simp add: sum.atLeast_Suc_lessThan numeral_2_eq_2)
  then show ?thesis by (simp add: backoff_def)
qed

text \<open>
  Claim C8, as amended.  When every attempt of a job fails (its call is rejected or
  loses the race against the timeout) with a value other than \<open>undefined\<close> and \<open>null\<close>,
  and \<open>maxRetries \<ge> 1\<close>, \<open>executeImageProcessing\<close>
  makes exactly \<open>maxRetries\<close> attempts, sleeps \<open>1000 * 2^(attempt - 1)\<close> ms after each
  attempt but the last, and resolves to a failure whose error carries the message of the
  last thrown error and whose \<open>processingTime\<close> is the time all attempts and sleeps
  took; that time is at least 1000 ms, the first backoff interval, when
  \<open>maxRetries \<ge> 2\<close>, as with the default of 2.
\<close>

theorem executeImageProcessing_all_fail:
  assumes "\<forall>a. 1 \<le> a \<and> a \<le> maxRetries cfg \<longrightarrow> failsReadably cfg env a"
    and "1 \<le> maxRetries cfg"
  shows "\<exists>res. executeImageProcessing cfg env startTime
                 = (Inr res, maxRetries cfg, map backoff [1..<maxRetries cfg])
           \<and> \<not> success res \<and> result res = None
           \<and> error res = Some (FailedAfter (maxRetries cfg)
                                 (errorMessageOf (thrownAt cfg env (maxRetries cfg))))
           \<and> processingTime res =
                (\<Sum>a = 1..maxRetries cfg. elapsedOf cfg env a)
                + (\<Sum>a = 1..<maxRetries cfg. backoff a + lateness (env a))
           \<and> (2 \<le> maxRetries cfg \<longrightarrow> 1000 \<le> processingTime res)"
proof -
  have b: "1 \<le> maxRetries cfg + 1" by simp
  have eq: "executeImageProcessing cfg env startTime =
      (Inr \<lparr>success = False, result = None,
        error = Some (FailedAfter (maxRetries cfg)
                       (errorMessageOf (thrownAt cfg env (maxRetries cfg)))),
        processingTime = (\<Sum>a = 1..maxRetries cfg. elapsedOf cfg env a)
                + (\<Sum>a = 1..<maxRetries cfg. backoff a + lateness (env a))\<rparr>,
       maxRetries cfg, map backoff [1..<maxRetries cfg])"
    unfolding executeImageProcessing_def executeLoop_all_fail[OF assms(1) b]
    using assms(2) by simp
  show ?thesis
    unfolding eq using backoff_sum_lower[of "maxRetries cfg" env]
    by (auto simp: trans_le_add2)
qed

theorem executeImageProcessing_all_fail_witness:
  "failsReadably (newImageProcessorConfig None None None) failsSlowly 1
   \<and> failsReadably (newImageProcessorConfig None None None) failsSlowly 2
   \<and> maxRetries (newImageProcessorConfig None None None) = 2
   \<and> executeImageProcessing (newImageProcessorConfig None None None) failsSlowly 5000
       = (Inr \<lparr>success = False, result = None,
            error = Some (FailedAfter 2 (Message ''Connect Timeout'')),
            processingTime = 1503\<rparr>, 2, [1000])"
proof -
  let ?cfg = "newImageProcessorConfig None None None"
  have n: "maxRetries ?cfg = 2" by (simp add: newImageProcessorConfig_def orDefault_def)
  have f: "failsReadably ?cfg failsSlowly a" for a
    by (simp add: failsReadably_def fails_def thrownAt_def raceWithTimeout_def failsSlowly_def
        newImageProcessorConfig_def orDefault_def)
  have h1: "\<forall>a. 1 \<le> a \<and> a \<le> maxRetries ?cfg \<longrightarrow> failsReadably ?cfg failsSlowly a"
    using f by simp
  have h2: "1 \<le> maxRetries ?cfg" using n by simp
  have e: "elapsedOf ?cfg failsSlowly a = 250" for a
    by (simp add: elapsedOf_def raceWithTimeout_def failsSlowly_def newImageProcessorConfig_def
        orDefault_def)
  have t: "thrownAt ?cfg failsSlowly 2 = Some (ErrorObject (Message ''Connect Timeout''))"
    by (simp add: thrownAt_def raceWithTimeout_def failsSlowly_def newImageProcessorConfig_def
        orDefault_def)
  have u: "[1..<2] = [1::nat]" by (simp add: upt_conv_Cons)
  have s1: "(\<Sum>a = 1..2::nat. (250::nat)) = 500" by simp
  have s2: "(\<Sum>a = 1..<2::nat. backoff a + lateness (failsSlowly a)) = 1003"
    by (simp add: backoff_def failsSlowly_def)
  from executeImageProcessing_all_fail[OF h1 h2, of 5000]
  obtain res where
    r: "executeImageProcessing ?cfg failsSlowly 5000 = (Inr res, 2, [backoff 1])"
    and p: "\<not> success res" "result res = None"
      "error res = Some (FailedAfter 2 (Message ''Connect Timeout''))"
      "processingTime res = 1503"
    unfolding n e t u s1 s2 errorMessageOf_def by auto
  have "res = \<lparr>success = False, result = None,
            error = Some (FailedAfter 2 (Message ''Connect Timeout'')),
            processingTime = 1503\<rparr>"
    using p by (cases res) simp
  with r f n show ?thesis by (simp add: backoff_def)
qed

text \<open>
  The claim as stated fails at two inputs.  With \<open>maxRetries = 1\<close> the single attempt is
  the last one and no backoff follows it: a job whose call fails at once resolves with
  \<open>processingTime = 0\<close>, less than one backoff interval.  And with the default of two
  attempts, a call that is rejected with \<open>undefined\<close> ends the method after the first
  attempt with a \<open>TypeError\<close>: no second attempt, no failure result.
\<close>

theorem executeImageProcessing_single_attempt_counterexample:
  "fails (newImageProcessorConfig (Some 3) (Some 180000) (Some 1)) failsAtOnce 1
   \<and> maxRetries (newImageProcessorConfig (Some 3) (Some 180000) (Some 1)) = 1
   \<and> executeImageProcessing (newImageProcessorConfig (Some 3) (Some 180000) (Some 1))
        failsAtOnce 5000
       = (Inr \<lparr>success = False, result = None,
            error = Some (FailedAfter 1 (Message ''Connect Timeout'')),
            processingTime = 0\<rparr>, 1, [])
   \<and> backoff 1 = 1000
   \<and> fails (newImageProcessorConfig None None None) rejectsUndefined 1
   \<and> fails (newImageProcessorConfig None None None) rejectsUndefined 2
   \<and> maxRetries (newImageProcessorConfig None None None) = 2
   \<and> executeImageProcessing (newImageProcessorConfig None None None) rejectsUndefined 5000
       = (Inl TypeError, 1, [])"
  by (simp add: executeImageProcessing_def executeLoop.simps fails_def raceWithTimeout_def
      failsAtOnce_def rejectsUndefined_def newImageProcessorConfig_def orDefault_def
      errorMessageOf_def backoff_def Let_def)

section \<open>Properties of the admission gate\<close>

lemma jobs_for_user_iff:
  "0 < getActiveJobsForUser jobs u \<longleftrightarrow> isProcessingForUser jobs u"
  by (induction jobs) (auto simp: getActiveJobsForUser_def isProcessingForUser_def)

lemma heavyRegistered_pos_iff:
  "0 < heavyRegistered s u \<longleftrightarrow>
     u \<in> userActiveRequests s \<or> isProcessingForUser (processingJobs s) u"
  using jobs_for_user_iff[of "processingJobs s" u]
  by (auto simp: heavyRegistered_def)

lemma processTextMessage_rejects_busy:
  "requireWorks s \<Longrightarrow> 0 < heavyRegistered s u \<Longrightarrow> processTextMessage s u = (False, s)"
  by (auto simp: heavyRegistered_pos_iff processTextMessage_def isProcessingImageForUser_def
      Let_def)

lemma processTextMessage_rejects_active:
  "u \<in> userActiveRequests s \<Longrightarrow> processTextMessage s u = (False, s)"
  by (simp add: processTextMessage_def Let_def)

lemma processTextMessage_admits_idle:
  assumes "heavyRegistered s u = 0"
  shows "fst (processTextMessage s u) \<and> heavyRegistered (snd (processTextMessage s u)) u = 1"
proof -
  from assms have "\<not> 0 < heavyRegistered s u" by simp
  then have idle: "u \<notin> userActiveRequests s" "\<not> isProcessingForUser (processingJobs s) u"
    by (simp_all add: heavyRegistered_pos_iff)
  from idle(2) have "getActiveJobsForUser (processingJobs s) u = 0"
    using jobs_for_user_iff[of "processingJobs s" u] by simp
  with idle show ?thesis
    by (simp add: processTextMessage_def isProcessingImageForUser_def Let_def
        heavyRegistered_def)
qed

lemma photoHandlerCheck_rejects_busy:
  "0 < heavyRegistered s u \<Longrightarrow> photoHandlerCheck s u m supports rate = (False, s)"
  by (auto simp: heavyRegistered_pos_iff photoHandlerCheck_def)

lemma photoHandlerCheck_registers_nothing:
  "heavyRegistered (snd (photoHandlerCheck s u m supports rate)) v = heavyRegistered s v"
  by (simp add: photoHandlerCheck_def heavyRegistered_def)

lemma string_of_int_7: "string_of_int 7 = ''7''"
  by (simp add: string_of_int_def string_of_nat.simps digitChar_def)

lemma jobIdOf_7_101: "jobIdOf 7 101 5000 = ''7_101_5000''"
  by (simp add: jobIdOf_def string_of_int_def string_of_nat.simps digitChar_def)

lemma jobIdOf_7_102: "jobIdOf 7 102 5001 = ''7_102_5001''"
  by (simp add: jobIdOf_def string_of_int_def string_of_nat.simps digitChar_def)

text \<open>
  Claim C1 (at most one heavy request per user is registered at any time).  The text
  path tests and sets its flag in one step, and both paths reject a user who has a
  registered request (the lemmas above; the text path sees image jobs where \<open>require\<close>
  works).  The photo path, however, registers its job
  only in \<open>processImageAsync\<close>, after two awaits that follow its test, and never sets
  the flag.  So two photos of user 7 sent back to back both pass the test and both get a
  job; and a photo followed by a text message of user 7 leaves a job and the text flag.
  In the last trace the flag is set first and both later messages are rejected.  All
  four hold whether or not \<open>require\<close> works.
\<close>

theorem photo_admission_registers_late:
  "processingJobs (botRun works [PhotoMessage 7 101, PhotoMessage 7 102,
                           PhotoContinues 7 101 5000, PhotoContinues 7 102 5001])
     = [''7_101_5000'', ''7_102_5001'']
   \<and> heavyRegistered (botRun works [PhotoMessage 7 101, PhotoMessage 7 102,
                              PhotoContinues 7 101 5000, PhotoContinues 7 102 5001]) 7 = 2
   \<and> heavyRegistered (botRun works [PhotoMessage 7 101, TextMessage 7 102,
                              PhotoContinues 7 101 5000]) 7 = 2
   \<and> heavyRegistered (botRun works [TextMessage 7 101, PhotoMessage 7 102,
                              TextMessage 7 103]) 7 = 1"
  by (simp add: botRun_def newBot_def photoHandlerCheck_def processTextMessage_def
      isProcessingImageForUser_def
      processImageAsync_def isProcessingForUser_def getActiveJobsForUser_def
      heavyRegistered_def jobIdOf_7_101 jobIdOf_7_102 string_of_int_7 Let_def)

text \<open>Where \<open>require\<close> does not work the text path does not see image jobs at all: a
  text message that arrives while the user's image job runs is admitted.\<close>

lemma text_after_image_job:
  "heavyRegistered (botRun True [PhotoMessage 7 101, PhotoContinues 7 101 5000,
                                 TextMessage 7 102]) 7 = 1
   \<and> heavyRegistered (botRun False [PhotoMessage 7 101, PhotoContinues 7 101 5000,
                                    TextMessage 7 102]) 7 = 2"
  by (simp add: botRun_def newBot_def photoHandlerCheck_def processTextMessage_def
      isProcessingImageForUser_def
      processImageAsync_def isProcessingForUser_def getActiveJobsForUser_def
      heavyRegistered_def jobIdOf_7_101 string_of_int_7 Let_def)

section \<open>Properties of formatting and pagination\<close>

subsection \<open>trim\<close>

lemma dropWhile_id_hd: "s = [] \<or> \<not> P (hd s) \<Longrightarrow> dropWhile P s = s"
  by (cases s) auto

lemma trim_trimmed: "trimmed s \<Longrightarrow> trim s = s"
proof -
  assume t: "trimmed s"
  then have 1: "dropWhile isWhiteSpace s = s" by (auto simp: trimmed_def dropWhile_id_hd)
  from t have "rev s = [] \<or> \<not> isWhiteSpace (hd (rev s))"
    by (auto simp: trimmed_def hd_rev)
  then have 2: "dropWhile isWhiteSpace (rev s) = rev s" by (rule dropWhile_id_hd)
  show ?thesis by (simp add: trim_def 1 2)
qed

lemma trimmed_trim: "trimmed (trim s)"
proof -
  let ?t = "dropWhile isWhiteSpace s"
  let ?u = "dropWhile isWhiteSpace (rev ?t)"
  have ts: "trim s = rev ?u" by (simp add: trim_def)
  show ?thesis
  proof (cases "?u = []")
    case True then show ?thesis by (simp add: ts trimmed_def)
  next
    case False
    then have hu: "\<not> isWhiteSpace (hd ?u)" by (rule hd_dropWhile)
    have tne: "?t \<noteq> []"
    proof
      assume e: "?t = []"
      have "?u = []" unfolding e by simp
      with False show False by simp
    qed
    then have ht: "\<not> isWhiteSpace (hd ?t)" by (rule hd_dropWhile)
    have "suffix ?u (rev ?t)" by (rule suffix_dropWhile)
    then obtain p where p: "rev ?t = p @ ?u" by (auto simp: suffix_def)
    then have "last (rev ?t) = last ?u" using False by (metis last_appendR)
    then have "last ?u = hd ?t" using tne by (simp add: last_rev)
    with ht hu False show ?thesis by (simp add: ts trimmed_def hd_rev last_rev)
  qed
qed

lemma trim_idem: "trim (trim s) = trim s"
  by (rule trim_trimmed) (rule trimmed_trim)

lemma set_trim: "set (trim s) \<subseteq> set s"
  by (auto simp: trim_def dest!: set_dropWhileD)

lemma length_trim: "length (trim s) \<le> length s"
proof -
  have "length (trim s) \<le> length (rev (dropWhile isWhiteSpace s))"
    unfolding trim_def
    using length_dropWhile_le[of isWhiteSpace "rev (dropWhile isWhiteSpace s)"] by simp
  also have "\<dots> \<le> length s" by (simp add: length_dropWhile_le)
  finally show ?thesis .
qed

lemma sublist_trim: "sublist (trim s) s"
proof -
  have "suffix (dropWhile isWhiteSpace (rev (dropWhile isWhiteSpace s)))
          (rev (dropWhile isWhiteSpace s))" by (rule suffix_dropWhile)
  then have "prefix (trim s) (dropWhile isWhiteSpace s)"
    by (simp add: trim_def suffix_to_prefix)
  moreover have "suffix (dropWhile isWhiteSpace s) s" by (rule suffix_dropWhile)
  ultimately show ?thesis
    by (meson prefix_imp_sublist suffix_imp_sublist sublist_order.order_trans)
qed

subsection \<open>The three replacements\<close>

lemma stripMarker_no_sparkles: "SPARKLES \<notin> set s \<Longrightarrow> stripMarker b s = s"
  by (induction s arbitrary: b) auto

lemma removeRules_no_rule: "HEAVY_RULE \<notin> set s \<Longrightarrow> removeRules s = s"
  by (auto simp: removeRules_def filter_id_conv)

lemma no_rule_removeRules: "HEAVY_RULE \<notin> set (removeRules s)"
  by (simp add: removeRules_def)

lemma set_collapseNewlines: "set (collapseNewlines s) \<subseteq> set s"
proof (induction s rule: collapseNewlines.induct)
  case 1 then show ?case by simp
next
  case (2 c cs)
  show ?case
  proof (cases "c = NEWLINE")
    case True
    have "set (dropWhile (\<lambda>x. x = NEWLINE) (c # cs)) \<subseteq> set (c # cs)"
      by (meson set_dropWhileD subsetI)
    moreover have "set (takeWhile (\<lambda>x. x = NEWLINE) (c # cs)) \<subseteq> set (c # cs)"
      by (meson set_takeWhileD subsetI)
    ultimately show ?thesis using True 2(1)[OF True refl refl]
      by (auto simp: Let_def)
  next
    case False
    with 2(2) show ?thesis by auto
  qed
qed

lemma takeWhile_eq_replicate: "takeWhile (\<lambda>x. x = a) s = replicate (length (takeWhile (\<lambda>x. x = a) s)) a"
  by (induction s) auto

lemma long_run_sublist:
  assumes "3 \<le> length (takeWhile (\<lambda>x. x = NEWLINE) s)"
  shows "sublist tripleNewline s"
proof -
  let ?n = "length (takeWhile (\<lambda>x. x = NEWLINE) s)"
  have "takeWhile (\<lambda>x. x = NEWLINE) s = replicate ?n NEWLINE" by (rule takeWhile_eq_replicate)
  moreover have "replicate ?n NEWLINE = replicate 3 NEWLINE @ replicate (?n - 3) NEWLINE"
    using assms by (simp add: replicate_add[symmetric])
  ultimately have "s = tripleNewline @ replicate (?n - 3) NEWLINE @ dropWhile (\<lambda>x. x = NEWLINE) s"
    by (metis append.assoc takeWhile_dropWhile_id numeral_3_eq_3 replicate_Suc replicate_0)
  then show ?thesis by (metis prefixI prefix_imp_sublist)
qed

lemma collapseNewlines_id:
  "\<not> sublist tripleNewline s \<Longrightarrow> collapseNewlines s = s"
proof (induction s rule: collapseNewlines.induct)
  case 1 then show ?case by simp
next
  case (2 c cs)
  show ?case
  proof (cases "c = NEWLINE")
    case True
    let ?run = "takeWhile (\<lambda>x. x = NEWLINE) (c # cs)"
    let ?rest = "dropWhile (\<lambda>x. x = NEWLINE) (c # cs)"
    have short: "\<not> 3 \<le> length ?run" using long_run_sublist "2.prems" by blast
    have "suffix ?rest (c # cs)" by (rule suffix_dropWhile)
    then have "\<not> sublist tripleNewline ?rest"
      using "2.prems" by (meson suffix_imp_sublist sublist_order.order_trans)
    from 2(1)[OF True refl refl this] have "collapseNewlines ?rest = ?rest" .
    then have "collapseNewlines (c # cs) = ?run @ ?rest"
      using True short by (simp add: Let_def)
    then show ?thesis by (simp only: takeWhile_dropWhile_id)
  next
    case False
    from "2.prems" have "\<not> sublist tripleNewline cs"
      by (meson sublist_Cons_right)
    with 2(2)[OF False] False show ?thesis by simp
  qed
qed

lemma collapseNewlines_head:
  "s = [] \<or> hd s \<noteq> NEWLINE \<Longrightarrow> collapseNewlines s = [] \<or> hd (collapseNewlines s) \<noteq> NEWLINE"
  by (cases s) auto

lemma short_run_no_triple:
  assumes "k \<le> 2" and "t = [] \<or> hd t \<noteq> NEWLINE" and "\<not> sublist tripleNewline t"
  shows "\<not> sublist tripleNewline (replicate k NEWLINE @ t)"
proof -
  have p: "\<not> prefix tripleNewline (replicate j NEWLINE @ t)" if "j \<le> 2" for j
  proof -
    from that consider "j = 0" | "j = 1" | "j = 2" by arith
    then show ?thesis using assms(2)
      by cases (cases t; auto simp: numeral_2_eq_2)+
  qed
  from assms(1) consider "k = 0" | "k = 1" | "k = 2" by arith
  then show ?thesis
  proof cases
    case 1 then show ?thesis using assms(3) by simp
  next
    case 2
    then show ?thesis using assms(3) p[of 1] p[of 0]
      by (auto simp: sublist_Cons_right)
  next
    case 3
    then show ?thesis using assms(3) p[of 2] p[of 1] p[of 0]
      by (auto simp: sublist_Cons_right numeral_2_eq_2)
  qed
qed

lemma no_triple_collapseNewlines: "\<not> sublist tripleNewline (collapseNewlines s)"
proof (induction s rule: collapseNewlines.induct)
  case 1 then show ?case by simp
next
  case (2 c cs)
  show ?case
  proof (cases "c = NEWLINE")
    case True
    let ?run = "takeWhile (\<lambda>x. x = NEWLINE) (c # cs)"
    let ?rest = "dropWhile (\<lambda>x. x = NEWLINE) (c # cs)"
    let ?out = "(if length ?run \<ge> 3 then [NEWLINE, NEWLINE] else ?run)"
    have IH: "\<not> sublist tripleNewline (collapseNewlines ?rest)" by (rule 2(1)[OF True refl refl])
    have "?rest = [] \<or> hd ?rest \<noteq> NEWLINE" using hd_dropWhile[of "\<lambda>x. x = NEWLINE" "c # cs"] by blast
    then have h: "collapseNewlines ?rest = [] \<or> hd (collapseNewlines ?rest) \<noteq> NEWLINE"
      by (rule collapseNewlines_head)
    have "\<exists>k\<le>2. ?out = replicate k NEWLINE"
    proof (cases "length ?run \<ge> 3")
      case True then show ?thesis by (intro exI[of _ 2]) (simp add: numeral_2_eq_2)
    next
      case False
      then show ?thesis using takeWhile_eq_replicate[of NEWLINE "c # cs"]
        by (intro exI[of _ "length ?run"]) auto
    qed
    then obtain k where k: "k \<le> 2" "?out = replicate k NEWLINE" by blast
    have "collapseNewlines (c # cs) = ?out @ collapseNewlines ?rest"
      using True by (simp add: Let_def)
    then show ?thesis using short_run_no_triple[OF k(1) h IH] k(2) by simp
  next
    case False
    with 2(2)[OF False] show ?thesis by (auto simp: sublist_Cons_right)
  qed
qed

lemma stripMarker_id: "\<not> markerAtLineStart b s \<Longrightarrow> stripMarker b s = s"
  by (induction s arbitrary: b) auto

lemma length_stripMarker: "length (stripMarker b s) \<le> length s"
proof (induction b s rule: stripMarker.induct)
  case (1 b) then show ?case by simp
next
  case (2 b c cs)
  show ?case
  proof (cases "b \<and> c = SPARKLES")
    case True
    have "length (dropWhile isWhiteSpace cs) \<le> length cs" by (rule length_dropWhile_le)
    with 2(1)[OF True refl refl] True show ?thesis by (simp add: Let_def)
  next
    case False
    with 2(2)[OF False] show ?thesis by auto
  qed
qed

lemma length_stripMarker_less:
  "markerAtLineStart b s \<Longrightarrow> length (stripMarker b s) < length s"
proof (induction s arbitrary: b)
  case Nil then show ?case by simp
next
  case (Cons c cs)
  show ?case
  proof (cases "b \<and> c = SPARKLES")
    case True
    let ?b' = "takeWhile isWhiteSpace cs \<noteq> [] \<and> isLineTerminator (last (takeWhile isWhiteSpace cs))"
    have "length (stripMarker ?b' (dropWhile isWhiteSpace cs))
            \<le> length (dropWhile isWhiteSpace cs)" by (rule length_stripMarker)
    also have "\<dots> \<le> length cs" by (rule length_dropWhile_le)
    finally show ?thesis using True by (simp add: Let_def)
  next
    case False
    with Cons.prems have "markerAtLineStart (isLineTerminator c) cs" by auto
    from Cons.IH[OF this] False show ?thesis by auto
  qed
qed

lemma length_removeRules: "length (removeRules s) \<le> length s"
  by (simp add: removeRules_def)

lemma length_collapseNewlines: "length (collapseNewlines s) \<le> length s"
proof (induction s rule: collapseNewlines.induct)
  case 1 then show ?case by simp
next
  case (2 c cs)
  show ?case
  proof (cases "c = NEWLINE")
    case True
    let ?run = "takeWhile (\<lambda>x. x = NEWLINE) (c # cs)"
    let ?rest = "dropWhile (\<lambda>x. x = NEWLINE) (c # cs)"
    have IH: "length (collapseNewlines ?rest) \<le> length ?rest" by (rule 2(1)[OF True refl refl])
    have "length ?run + length ?rest = length (c # cs)"
      by (simp only: length_append[symmetric] takeWhile_dropWhile_id)
    moreover have "length (if length ?run \<ge> 3 then [NEWLINE, NEWLINE] else ?run) \<le> length ?run"
      by simp
    moreover have "collapseNewlines (c # cs)
        = (if length ?run \<ge> 3 then [NEWLINE, NEWLINE] else ?run) @ collapseNewlines ?rest"
      using True by (simp add: Let_def)
    ultimately show ?thesis using IH by (simp only: length_append)
  next
    case False
    with 2(2)[OF False] show ?thesis by simp
  qed
qed

lemma length_stripDecor_less:
  assumes "markerAtLineStart True x"
  shows "length (stripDecor x) < length x"
proof -
  have "length (stripDecor x) \<le> length (collapseNewlines (removeRules (stripMarker True x)))"
    unfolding stripDecor_def by (rule length_trim)
  also have "\<dots> \<le> length (removeRules (stripMarker True x))" by (rule length_collapseNewlines)
  also have "\<dots> \<le> length (stripMarker True x)" by (rule length_removeRules)
  also have "\<dots> < length x" by (rule length_stripMarker_less[OF assms])
  finally show ?thesis .
qed

lemma stripDecor_clean:
  "trim (stripDecor x) = stripDecor x \<and> HEAVY_RULE \<notin> set (stripDecor x)
   \<and> \<not> sublist tripleNewline (stripDecor x)"
proof -
  let ?r = "stripDecor x"
  let ?c = "collapseNewlines (removeRules (stripMarker True x))"
  have r: "?r = trim ?c" by (simp add: stripDecor_def)
  have t: "trim ?r = ?r" by (simp add: r trim_idem)
  have "set ?r \<subseteq> set (removeRules (stripMarker True x))"
    using set_trim[of ?c] set_collapseNewlines[of "removeRules (stripMarker True x)"] r by auto
  then have nr: "HEAVY_RULE \<notin> set ?r" using no_rule_removeRules by blast
  have "\<not> sublist tripleNewline ?c" by (rule no_triple_collapseNewlines)
  then have nt: "\<not> sublist tripleNewline ?r"
    using sublist_trim[of ?c] r by (metis sublist_order.order_trans)
  from t nr nt show ?thesis by simp
qed

lemma stripDecor_fixed:
  assumes "\<not> markerAtLineStart True (stripDecor x)"
  shows "stripDecor (stripDecor x) = stripDecor x"
proof -
  let ?r = "stripDecor x"
  from stripDecor_clean[of x] have t: "trim ?r = ?r" and nr: "HEAVY_RULE \<notin> set ?r"
    and nt: "\<not> sublist tripleNewline ?r" by simp_all
  have "stripDecor ?r = trim (collapseNewlines (removeRules (stripMarker True ?r)))"
    by (simp add: stripDecor_def)
  also have "\<dots> = trim (collapseNewlines (removeRules ?r))"
    by (simp only: stripMarker_id[OF assms])
  also have "\<dots> = trim (collapseNewlines ?r)" by (simp only: removeRules_no_rule[OF nr])
  also have "\<dots> = trim ?r" by (simp only: collapseNewlines_id[OF nt])
  also have "\<dots> = ?r" by (rule t)
  finally show ?thesis .
qed

lemma formatResponse_twice:
  "formatResponse (formatResponse text) = stripDecor (formatResponse text)"
proof -
  have "trim (formatResponse text) = formatResponse text"
    using stripDecor_clean[of "trim text"] by (simp add: formatResponse_def)
  then show ?thesis by (simp add: formatResponse_def)
qed

lemmas format_eval =
  formatResponse_def stripDecor_def trim_def removeRules_def Let_def
  SPARKLES_def HEAVY_RULE_def NEWLINE_def SPACE_def isWhiteSpace_def isLineTerminator_def

text \<open>
  Claim C7 (formatting twice equals formatting once).  The first replacement of
  \<open>stripDecor\<close> removes one sparkles character, with the white space behind it, at each
  line start, and the rule characters go only afterwards.  So a sparkles character can
  stand at a line start of the result: of two in a row the second survives, and one
  behind a rule character moves to the line start when the rule goes.  A second pass
  removes it.  Formatting a second time changes nothing exactly when the first pass has
  left no sparkles character at a line start.
\<close>

theorem formatResponse_not_idempotent:
  "formatResponse doubleSparkles = [SPARKLES, 97]
   \<and> formatResponse (formatResponse doubleSparkles) = [97]
   \<and> formatResponse ruleBeforeSparkles = [SPARKLES, 97]
   \<and> formatResponse (formatResponse ruleBeforeSparkles) = [97]
   \<and> (formatResponse (formatResponse text) = formatResponse text)
       = (\<not> markerAtLineStart True (formatResponse text))"
proof -
  have d: "formatResponse doubleSparkles = [SPARKLES, 97]
           \<and> formatResponse (formatResponse doubleSparkles) = [97]"
    by (simp add: doubleSparkles_def format_eval)
  have r: "formatResponse ruleBeforeSparkles = [SPARKLES, 97]
           \<and> formatResponse (formatResponse ruleBeforeSparkles) = [97]"
    by (simp add: ruleBeforeSparkles_def format_eval)
  have g: "(formatResponse (formatResponse text) = formatResponse text)
             = (\<not> markerAtLineStart True (formatResponse text))"
  proof (cases "markerAtLineStart True (formatResponse text)")
    case True
    have "length (stripDecor (formatResponse text)) < length (formatResponse text)"
      by (rule length_stripDecor_less[OF True])
    then have "formatResponse (formatResponse text) \<noteq> formatResponse text"
      unfolding formatResponse_twice by auto
    with True show ?thesis by simp
  next
    case False
    then have "\<not> markerAtLineStart True (stripDecor (trim text))"
      by (simp add: formatResponse_def)
    from stripDecor_fixed[OF this]
    have "formatResponse (formatResponse text) = formatResponse text"
      unfolding formatResponse_twice by (simp add: formatResponse_def)
    with False show ?thesis by simp
  qed
  from d r g show ?thesis by blast
qed

text \<open>A text whose markers all go in one pass: the result has no sparkles character
  at a line start, and a second pass returns it.\<close>

lemma formatResponse_decorated:
  "formatResponse decorated = [72, 105, 10, 10, 98]
   \<and> \<not> markerAtLineStart True (formatResponse decorated)
   \<and> formatResponse (formatResponse decorated) = formatResponse decorated"
  by (simp add: decorated_def format_eval)

lemma set_stripMarker: "set (stripMarker b s) \<subseteq> set s"
proof (induction b s rule: stripMarker.induct)
  case (1 b) then show ?case by simp
next
  case (2 b c cs)
  show ?case
  proof (cases "b \<and> c = SPARKLES")
    case True
    have "set (dropWhile isWhiteSpace cs) \<subseteq> set cs" by (meson set_dropWhileD subsetI)
    with 2(1)[OF True refl refl] True show ?thesis by (auto simp: Let_def)
  next
    case False
    with 2(2)[OF False] show ?thesis by auto
  qed
qed

lemma set_formatResponse: "set (formatResponse text) \<subseteq> set text"
proof -
  have "set (formatResponse text) \<subseteq> set (stripMarker True (trim text))"
    unfolding formatResponse_def stripDecor_def Let_def removeRules_def
    using set_trim set_collapseNewlines by fastforce
  then show ?thesis using set_stripMarker[of True "trim text"] set_trim[of "text"] by blast
qed

lemma formatResponse_plain:
  assumes "trimmed t" and "SPARKLES \<notin> set t" and "HEAVY_RULE \<notin> set t"
    and "\<not> sublist [NEWLINE, NEWLINE, NEWLINE] t"
  shows "formatResponse t = t"
  using assms
  by (simp add: formatResponse_def stripDecor_def trim_trimmed stripMarker_no_sparkles
      removeRules_no_rule collapseNewlines_id)

subsection \<open>split and join\<close>

lemma splitAcc_nonempty: "splitAcc sep acc s \<noteq> []"
  by (induction sep acc s rule: splitAcc.induct) auto

lemma joinWith_Cons: "ys \<noteq> [] \<Longrightarrow> joinWith sep (x # ys) = x @ sep @ joinWith sep ys"
  by (cases ys) auto

lemma joinWith_splitAcc: "joinWith sep (splitAcc sep acc s) = acc @ s"
proof (induction sep acc s rule: splitAcc.induct)
  case (1 sep acc) then show ?case by simp
next
  case (2 sep acc c cs)
  show ?case
  proof (cases "sep \<noteq> [] \<and> prefix sep (c # cs)")
    case True
    then have eq: "c # cs = sep @ drop (length sep) (c # cs)"
      by (metis append_take_drop_id prefix_def append_eq_conv_conj)
    have "joinWith sep (splitAcc sep acc (c # cs))
            = acc @ sep @ joinWith sep (splitAcc sep [] (drop (length sep) (c # cs)))"
      using True by (simp add: joinWith_Cons splitAcc_nonempty)
    also have "\<dots> = acc @ sep @ drop (length sep) (c # cs)"
      using 2(1)[OF True] by simp
    finally show ?thesis using eq by simp
  next
    case False
    with 2(2)[OF False] show ?thesis by auto
  qed
qed

lemma joinWith_split: "joinWith sep (split sep s) = s"
  by (simp add: split_def joinWith_splitAcc)

lemma split_nonempty: "split sep s \<noteq> []"
  by (simp add: split_def splitAcc_nonempty)

lemma splitAcc_no_occurrence:
  "\<not> sublist sep s \<Longrightarrow> splitAcc sep acc s = [acc @ s]"
proof (induction sep acc s rule: splitAcc.induct)
  case (1 sep acc) then show ?case by simp
next
  case (2 sep acc c cs)
  from "2.prems" have np: "\<not> prefix sep (c # cs)" and ns: "\<not> sublist sep cs"
    by (auto simp: sublist_Cons_right)
  from np have f: "\<not> (sep \<noteq> [] \<and> prefix sep (c # cs))" by simp
  from 2(2)[OF f ns] f show ?case by simp
qed

lemma split_no_occurrence: "\<not> sublist sep s \<Longrightarrow> split sep s = [s]"
  by (simp add: split_def splitAcc_no_occurrence)

lemma splitAcc_char:
  "c \<notin> set u \<Longrightarrow> splitAcc [c] acc (u @ c # v) = (acc @ u) # splitAcc [c] [] v"
  by (induction u arbitrary: acc) auto

lemma split_char: "c \<notin> set u \<Longrightarrow> split [c] (u @ c # v) = u # split [c] v"
  by (simp add: split_def splitAcc_char)

lemma split_char_none: "c \<notin> set u \<Longrightarrow> split [c] u = [u]"
  by (rule split_no_occurrence) (auto simp: sublist_def)

lemma length_joinWith_ge_hd: "length w \<le> length (joinWith sep (w # ws))"
  by (cases ws) auto

lemma length_joinWith_ge_last: "ws \<noteq> [] \<Longrightarrow> length (last ws) \<le> length (joinWith sep ws)"
proof (induction sep ws rule: joinWith.induct)
  case (3 sep x y ys)
  then show ?case by (auto intro: trans_le_add2)
qed auto

lemma joinWith_merge:
  "joinWith sep ((a @ sep @ b) # rest) = joinWith sep (a # b # rest)"
  by (cases rest) auto

lemma trim_leading: "isWhiteSpace c \<Longrightarrow> trim (c # s) = trim s"
  by (simp add: trim_def)

lemma isWhiteSpace_SPACE: "isWhiteSpace SPACE"
  by (simp add: isWhiteSpace_def SPACE_def)

subsection \<open>Structure of the words of a text\<close>

lemma hd_splitAcc: "hd (splitAcc [c] acc s) = acc @ takeWhile (\<lambda>x. x \<noteq> c) s"
  by (induction s arbitrary: acc) auto

lemma length_splitAcc_char: "length (splitAcc [c] acc s) = Suc (length (filter (\<lambda>x. x = c) s))"
  by (induction s arbitrary: acc) auto

lemma last_splitAcc_empty:
  "last (splitAcc [c] acc s) = [] \<Longrightarrow> (s = [] \<and> acc = []) \<or> (s \<noteq> [] \<and> last s = c)"
proof (induction s arbitrary: acc)
  case Nil then show ?case by simp
next
  case (Cons x xs)
  show ?case
  proof (cases "x = c")
    case True
    with Cons.prems have "last (splitAcc [c] [] xs) = []"
      by (simp add: splitAcc_nonempty)
    from Cons.IH[OF this] True show ?thesis by auto
  next
    case False
    with Cons.prems have "last (splitAcc [c] (acc @ [x]) xs) = []" by simp
    from Cons.IH[OF this] show ?thesis by auto
  qed
qed

lemma words_shape:
  assumes "t \<noteq> []" and "hd t \<noteq> c" and "last t \<noteq> c" and "c \<in> set t"
  shows "\<exists>w ws. split [c] t = w # ws \<and> w \<noteq> [] \<and> ws \<noteq> [] \<and> last ws \<noteq> []"
proof -
  obtain w ws where sp: "split [c] t = w # ws"
    using split_nonempty[of "[c]" t] by (cases "split [c] t") auto
  have "w = takeWhile (\<lambda>x. x \<noteq> c) t"
    using hd_splitAcc[of c "[]" t] sp by (simp add: split_def)
  then have w: "w \<noteq> []" using assms(1,2) by (cases t) auto
  have "filter (\<lambda>x. x = c) t \<noteq> []" using assms(4) by (simp add: filter_empty_conv)
  then have "2 \<le> length (split [c] t)"
    by (cases "filter (\<lambda>x. x = c) t") (auto simp: split_def length_splitAcc_char)
  then have ws: "ws \<noteq> []" using sp by auto
  have "last (split [c] t) \<noteq> []"
    using last_splitAcc_empty[of c "[]" t] assms(1,3) by (auto simp: split_def)
  then have "last ws \<noteq> []" using sp ws by simp
  with sp w ws show ?thesis by blast
qed

subsection \<open>Page lengths\<close>

lemma packWords_lengths:
  assumes "length wordChunk \<le> MAX_PAGE_LENGTH"
    and "\<forall>w\<in>set words. length w \<le> MAX_PAGE_LENGTH"
  shows "\<forall>p\<in>set (packWords words wordChunk). length p \<le> MAX_PAGE_LENGTH"
  using assms
proof (induction words arbitrary: wordChunk)
  case Nil
  then show ?case using length_trim[of wordChunk] by auto
next
  case (Cons w words)
  show ?case
  proof (cases "length wordChunk + length w + 1 \<le> MAX_PAGE_LENGTH")
    case True
    then have "length (wordChunk @ (if wordChunk \<noteq> [] then [SPACE] else []) @ w)
                 \<le> MAX_PAGE_LENGTH" by simp
    from Cons.IH[OF this] Cons.prems(2) True show ?thesis by simp
  next
    case False
    have "length w \<le> MAX_PAGE_LENGTH" using Cons.prems(2) by simp
    from Cons.IH[OF this] Cons.prems False length_trim[of wordChunk] show ?thesis by auto
  qed
qed

lemma packParagraphs_lengths:
  assumes "length current \<le> MAX_PAGE_LENGTH"
    and "\<forall>p\<in>set paragraphs. \<forall>w\<in>set (split [SPACE] p). length w \<le> MAX_PAGE_LENGTH"
  shows "\<forall>page\<in>set (packParagraphs paragraphs current). length page \<le> MAX_PAGE_LENGTH"
  using assms
proof (induction paragraphs arbitrary: current)
  case Nil
  then show ?case using length_trim[of current] by auto
next
  case (Cons p paragraphs)
  have rest: "\<forall>p\<in>set paragraphs. \<forall>w\<in>set (split [SPACE] p). length w \<le> MAX_PAGE_LENGTH"
    using Cons.prems(2) by simp
  show ?case
  proof (cases "length current + length p + 2 \<le> MAX_PAGE_LENGTH")
    case True
    then have "length (current @ (if current \<noteq> [] then [NEWLINE, NEWLINE] else []) @ p)
                 \<le> MAX_PAGE_LENGTH" by simp
    from Cons.IH[OF this rest] True show ?thesis by simp
  next
    case False
    have cur: "\<forall>page\<in>set (if current \<noteq> [] then [trim current] else []).
                 length page \<le> MAX_PAGE_LENGTH"
      using Cons.prems(1) length_trim[of current] by auto
    show ?thesis
    proof (cases "length p > MAX_PAGE_LENGTH")
      case True
      have "\<forall>w\<in>set (split [SPACE] p). length w \<le> MAX_PAGE_LENGTH"
        using Cons.prems(2) by simp
      then have w: "\<forall>page\<in>set (packWords (split [SPACE] p) []). length page \<le> MAX_PAGE_LENGTH"
        by (intro packWords_lengths) simp_all
      have e: "length ([]::jsstring) \<le> MAX_PAGE_LENGTH" by simp
      from Cons.IH[OF e rest] w cur False True show ?thesis by auto
    next
      case F2: False
      then have "length p \<le> MAX_PAGE_LENGTH" by simp
      from Cons.IH[OF this rest] cur False F2 show ?thesis by auto
    qed
  qed
qed

subsection \<open>A paragraph one character longer than a page\<close>

lemma packWords_fits:
  assumes "wordChunk \<noteq> []"
    and "length (joinWith [SPACE] (wordChunk # words)) \<le> MAX_PAGE_LENGTH"
  shows "packWords words wordChunk = [trim (joinWith [SPACE] (wordChunk # words))]"
  using assms
proof (induction words arbitrary: wordChunk)
  case Nil then show ?case by simp
next
  case (Cons w words)
  have "joinWith [SPACE] (wordChunk # w # words) = wordChunk @ [SPACE] @ joinWith [SPACE] (w # words)"
    by simp
  moreover have "length w \<le> length (joinWith [SPACE] (w # words))" by (rule length_joinWith_ge_hd)
  ultimately have fit: "length wordChunk + length w + 1 \<le> MAX_PAGE_LENGTH"
    using Cons.prems(2) by simp
  have ne: "wordChunk @ [SPACE] @ w \<noteq> []" by simp
  have m: "joinWith [SPACE] ((wordChunk @ [SPACE] @ w) # words) = joinWith [SPACE] (wordChunk # w # words)"
    by (rule joinWith_merge)
  from Cons.IH[OF ne] Cons.prems(2) m
  have "packWords words (wordChunk @ [SPACE] @ w) = [trim (joinWith [SPACE] (wordChunk # w # words))]"
    by simp
  then show ?case using fit Cons.prems(1) by simp
qed

lemma joinWith_empty_head:
  "ws \<noteq> [] \<Longrightarrow> joinWith [SPACE] ([] # ws) = SPACE # joinWith [SPACE] ws"
  by (cases ws) auto

lemma packWords_fits_from_empty:
  assumes "length (joinWith [SPACE] words) < MAX_PAGE_LENGTH"
    and "\<exists>w\<in>set words. w \<noteq> []"
  shows "packWords words [] = [trim (joinWith [SPACE] words)]"
  using assms
proof (induction words)
  case Nil then show ?case by simp
next
  case (Cons w words)
  have "length w \<le> length (joinWith [SPACE] (w # words))" by (rule length_joinWith_ge_hd)
  then have fit: "length ([]::jsstring) + length w + 1 \<le> MAX_PAGE_LENGTH"
    using Cons.prems(1) by simp
  then have step: "packWords (w # words) [] = packWords words w" by simp
  show ?case
  proof (cases "w = []")
    case False
    from packWords_fits[OF False] Cons.prems(1) step show ?thesis by simp
  next
    case True
    with Cons.prems(2) have ex: "\<exists>w\<in>set words. w \<noteq> []" by simp
    then have ne: "words \<noteq> []" by auto
    have j: "joinWith [SPACE] (w # words) = SPACE # joinWith [SPACE] words"
      using True ne by (simp add: joinWith_empty_head)
    then have "length (joinWith [SPACE] words) < MAX_PAGE_LENGTH" using Cons.prems(1) by simp
    from Cons.IH[OF this ex] have "packWords words [] = [trim (joinWith [SPACE] words)]" .
    then show ?thesis using step True j by (simp add: trim_leading isWhiteSpace_SPACE)
  qed
qed

lemma packWords_one_over:
  assumes "wordChunk \<noteq> []"
    and "length (joinWith [SPACE] (wordChunk # words)) = MAX_PAGE_LENGTH + 1"
    and "words \<noteq> []" and "last words \<noteq> []"
  shows "\<exists>u v. joinWith [SPACE] (wordChunk # words) = u @ [SPACE] @ v
               \<and> packWords words wordChunk = [trim u, trim v]"
  using assms
proof (induction words arbitrary: wordChunk)
  case Nil then show ?case by simp
next
  case (Cons w words)
  have j: "joinWith [SPACE] (wordChunk # w # words) = wordChunk @ [SPACE] @ joinWith [SPACE] (w # words)"
    by simp
  show ?case
  proof (cases "length wordChunk + length w + 1 \<le> MAX_PAGE_LENGTH")
    case True
    have ne: "words \<noteq> []"
    proof
      assume "words = []"
      then have "length (joinWith [SPACE] (wordChunk # w # words)) = length wordChunk + length w + 1"
        by simp
      with True Cons.prems(2) show False by simp
    qed
    then have l: "last words \<noteq> []" using Cons.prems(4) by simp
    have c: "wordChunk @ [SPACE] @ w \<noteq> []" by simp
    have m: "joinWith [SPACE] ((wordChunk @ [SPACE] @ w) # words) = joinWith [SPACE] (wordChunk # w # words)"
      by (rule joinWith_merge)
    then have t: "length (joinWith [SPACE] ((wordChunk @ [SPACE] @ w) # words)) = MAX_PAGE_LENGTH + 1"
      using Cons.prems(2) by simp
    from Cons.IH[OF c t ne l] obtain u v where
      uv: "joinWith [SPACE] ((wordChunk @ [SPACE] @ w) # words) = u @ [SPACE] @ v"
      "packWords words (wordChunk @ [SPACE] @ w) = [trim u, trim v]" by blast
    have "joinWith [SPACE] (wordChunk # w # words) = u @ [SPACE] @ v"
      using uv(1) m by (simp only:)
    moreover have "packWords (w # words) wordChunk = [trim u, trim v]"
      using True Cons.prems(1) uv(2) by simp
    ultimately show ?thesis by blast
  next
    case False
    let ?v = "joinWith [SPACE] (w # words)"
    have lv: "length ?v < MAX_PAGE_LENGTH"
      using Cons.prems(1,2) j by (cases wordChunk) auto
    have rest: "packWords words w = [trim ?v]"
    proof (cases "w = []")
      case F: False
      from packWords_fits[OF F] lv show ?thesis by simp
    next
      case True
      with Cons.prems(4) have ne: "words \<noteq> []" by auto
      then have "last words \<noteq> []" using Cons.prems(4) by simp
      then have ex: "\<exists>w\<in>set words. w \<noteq> []" using ne last_in_set by blast
      have jv: "?v = SPACE # joinWith [SPACE] words" using True ne by (simp add: joinWith_empty_head)
      then have "length (joinWith [SPACE] words) < MAX_PAGE_LENGTH" using lv by simp
      from packWords_fits_from_empty[OF this ex]
      show ?thesis using True jv by (simp add: trim_leading isWhiteSpace_SPACE)
    qed
    have "packWords (w # words) wordChunk = [trim wordChunk, trim ?v]"
      using False Cons.prems(1) rest by simp
    with j show ?thesis by blast
  qed
qed

lemma no_break_paragraphs:
  "\<not> sublist [NEWLINE, NEWLINE] t \<Longrightarrow> split [NEWLINE, NEWLINE] t = [t]"
  by (rule split_no_occurrence)

lemma splitMessage_one_over:
  assumes len: "length t = MAX_PAGE_LENGTH + 1"
    and nobreak: "\<not> sublist [NEWLINE, NEWLINE] t"
    and space: "SPACE \<in> set t"
    and first: "hd t \<noteq> SPACE" and final: "last t \<noteq> SPACE"
  shows "\<exists>u v. t = u @ [SPACE] @ v \<and> splitMessage t = [trim u, trim v]"
proof -
  have tne: "t \<noteq> []" using space by auto
  from words_shape[OF tne first final space] obtain w ws where
    sp: "split [SPACE] t = w # ws" and w: "w \<noteq> []" and ws: "ws \<noteq> []" and l: "last ws \<noteq> []"
    by blast
  have jt: "joinWith [SPACE] (w # ws) = t" using joinWith_split[of "[SPACE]" t] sp by simp
  then have total: "length (joinWith [SPACE] (w # ws)) = MAX_PAGE_LENGTH + 1" using len by simp
  have "joinWith [SPACE] (w # ws) = w @ [SPACE] @ joinWith [SPACE] ws"
    using ws by (simp add: joinWith_Cons)
  moreover have "1 \<le> length (joinWith [SPACE] ws)"
    using length_joinWith_ge_last[OF ws, of "[SPACE]"] l
    by (cases "last ws") auto
  ultimately have fit: "length ([]::jsstring) + length w + 1 \<le> MAX_PAGE_LENGTH"
    using total by simp
  then have first_step: "packWords (w # ws) [] = packWords ws w" by simp
  from packWords_one_over[OF w total ws l] obtain u v where
    uv: "joinWith [SPACE] (w # ws) = u @ [SPACE] @ v" "packWords ws w = [trim u, trim v]"
    by blast
  have "splitMessage t = packWords (w # ws) []"
    using len no_break_paragraphs[OF nobreak] sp
    by (simp add: splitMessage_def)
  with first_step uv jt show ?thesis by auto
qed

lemma splitMessage_short: "length t \<le> MAX_PAGE_LENGTH \<Longrightarrow> splitMessage t = [t]"
  by (simp add: splitMessage_def)

lemma splitMessage_pagesFit: "wordsFit t \<Longrightarrow> pagesFit (splitMessage t)"
proof (cases "length t \<le> MAX_PAGE_LENGTH")
  case True
  then show ?thesis by (simp add: splitMessage_def pagesFit_def)
next
  case False
  assume "wordsFit t"
  then have w: "\<forall>p\<in>set (split [NEWLINE, NEWLINE] t).
                 \<forall>w\<in>set (split [SPACE] p). length w \<le> MAX_PAGE_LENGTH"
    by (simp add: wordsFit_def list_all_iff)
  have e: "length ([]::jsstring) \<le> MAX_PAGE_LENGTH" by simp
  from packParagraphs_lengths[OF e w] False show ?thesis
    by (simp add: splitMessage_def pagesFit_def list_all_iff)
qed

text \<open>
  Claim C6, as amended.  When every word of every paragraph is at most 3500 characters
  long, every page is at most 3500 characters long; a text of at most 3500 characters is
  its own single page; a text of 3501 characters without a paragraph break that holds a
  space and neither begins nor ends with one gives exactly two pages, the trimmed parts
  before and after one of its spaces.
\<close>

theorem splitMessage_pages:
  "(wordsFit t1 \<longrightarrow> pagesFit (splitMessage t1))
   \<and> (length t2 \<le> 3500 \<longrightarrow> splitMessage t2 = [t2])
   \<and> (length t3 = 3501 \<and> \<not> sublist [NEWLINE, NEWLINE] t3
        \<and> SPACE \<in> set t3 \<and> hd t3 \<noteq> SPACE \<and> last t3 \<noteq> SPACE
       \<longrightarrow> (\<exists>u v. t3 = u @ [SPACE] @ v \<and> splitMessage t3 = [trim u, trim v]))"
proof (intro conjI impI)
  show "pagesFit (splitMessage t1)" if "wordsFit t1"
    using that by (rule splitMessage_pagesFit)
  show "splitMessage t2 = [t2]" if "length t2 \<le> 3500"
    using that by (simp add: splitMessage_short MAX_PAGE_LENGTH_def)
  show "\<exists>u v. t3 = u @ [SPACE] @ v \<and> splitMessage t3 = [trim u, trim v]"
    if "length t3 = 3501 \<and> \<not> sublist [NEWLINE, NEWLINE] t3
        \<and> SPACE \<in> set t3 \<and> hd t3 \<noteq> SPACE \<and> last t3 \<noteq> SPACE"
    using that by (intro splitMessage_one_over) (simp_all add: MAX_PAGE_LENGTH_def)
qed

lemma no_newline_no_break: "NEWLINE \<notin> set t \<Longrightarrow> \<not> sublist [NEWLINE, NEWLINE] t"
  by (auto simp: sublist_def)

lemma no_newline_no_triple: "NEWLINE \<notin> set t \<Longrightarrow> \<not> sublist [NEWLINE, NEWLINE, NEWLINE] t"
  by (auto simp: sublist_def)

lemma trimmed_letters:
  "0 < m \<Longrightarrow> 0 < n \<Longrightarrow> trimmed (replicate m 97 @ s @ replicate n 98)"
  by (cases m; cases n) (auto simp: trimmed_def isWhiteSpace_def isLineTerminator_def)

lemma trimmed_word: "\<not> isWhiteSpace c \<Longrightarrow> trimmed (replicate n c)"
  by (cases n) (auto simp: trimmed_def)

lemma letter_a: "\<not> isWhiteSpace 97" by (simp add: isWhiteSpace_def isLineTerminator_def)
lemma letter_b: "\<not> isWhiteSpace 98" by (simp add: isWhiteSpace_def isLineTerminator_def)

lemma split_twoWords: "split [SPACE] twoWords = [replicate 3000 97, replicate 500 98]"
proof -
  have a: "SPACE \<notin> set (replicate 3000 (97::nat))" by (simp add: SPACE_def)
  have b: "SPACE \<notin> set (replicate 500 (98::nat))" by (simp add: SPACE_def)
  show ?thesis
    unfolding twoWords_def using split_char[OF a, of "replicate 500 98"] split_char_none[OF b]
    by simp
qed

lemma paragraphs_twoWords: "split [NEWLINE, NEWLINE] twoWords = [twoWords]"
  by (rule split_no_occurrence, rule no_newline_no_break)
     (simp add: twoWords_def NEWLINE_def SPACE_def)

theorem splitMessage_pages_witness:
  "wordsFit twoWords \<and> pagesFit (splitMessage twoWords)
   \<and> length fullPage \<le> 3500 \<and> splitMessage fullPage = [fullPage]
   \<and> length twoWords = 3501 \<and> \<not> sublist [NEWLINE, NEWLINE] twoWords
   \<and> SPACE \<in> set twoWords \<and> hd twoWords \<noteq> SPACE \<and> last twoWords \<noteq> SPACE
   \<and> (\<exists>u v. twoWords = u @ [SPACE] @ v \<and> splitMessage twoWords = [trim u, trim v])"
proof -
  have h1: "wordsFit twoWords"
    by (simp add: wordsFit_def paragraphs_twoWords split_twoWords MAX_PAGE_LENGTH_def)
  have h2: "length fullPage \<le> 3500" by (simp add: fullPage_def)
  have h3: "length twoWords = 3501 \<and> \<not> sublist [NEWLINE, NEWLINE] twoWords
        \<and> SPACE \<in> set twoWords \<and> hd twoWords \<noteq> SPACE \<and> last twoWords \<noteq> SPACE"
  proof -
    have "\<not> sublist [NEWLINE, NEWLINE] twoWords"
      by (rule no_newline_no_break) (simp add: twoWords_def NEWLINE_def SPACE_def)
    moreover have "hd twoWords = 97"
      by (simp add: twoWords_def hd_append)
    ultimately show ?thesis by (simp add: twoWords_def SPACE_def)
  qed
  from splitMessage_pages[of twoWords fullPage twoWords] h1 h2 h3
  show ?thesis by blast
qed

text \<open>The claim as stated fails for a word longer than a page: the splitter never
  cuts inside a word, so 3501 letters without a space come back as one page of 3501
  characters.  It also fails when the one space stands at an end of the text: the pages
  are trimmed and an empty chunk is not pushed, so 3500 letters before or after a space
  come back as one page.\<close>

lemma splitMessage_one_long_word:
  assumes "MAX_PAGE_LENGTH < length t" and "NEWLINE \<notin> set t" and "SPACE \<notin> set t"
  shows "splitMessage t = [trim t]"
proof -
  have p: "split [NEWLINE, NEWLINE] t = [t]"
    using assms(2) by (intro split_no_occurrence no_newline_no_break)
  have w: "split [SPACE] t = [t]" using assms(3) by (rule split_char_none)
  have "t \<noteq> []" using assms(1) by auto
  then show ?thesis using assms(1) by (simp add: splitMessage_def p w)
qed

lemma splitMessage_trailingSpace: "splitMessage trailingSpace = [replicate 3500 97]"
proof -
  have a: "SPACE \<notin> set (replicate 3500 (97::nat))" by (simp add: SPACE_def)
  have w: "split [SPACE] trailingSpace = [replicate 3500 97, []]"
    unfolding trailingSpace_def using split_char[OF a, of "[]"] by (simp add: split_def)
  have p: "split [NEWLINE, NEWLINE] trailingSpace = [trailingSpace]"
    by (rule split_no_occurrence, rule no_newline_no_break)
       (simp add: trailingSpace_def NEWLINE_def SPACE_def)
  have l: "length trailingSpace = 3501" by (simp add: trailingSpace_def)
  have t: "trim (replicate 3500 97) = replicate 3500 97"
    by (intro trim_trimmed trimmed_word letter_a)
  show ?thesis
    by (simp add: splitMessage_def l p w MAX_PAGE_LENGTH_def t)
qed

lemma splitMessage_leadingSpace: "splitMessage leadingSpace = [replicate 3500 97]"
proof -
  have a: "SPACE \<notin> set (replicate 3500 (97::nat))" by (simp add: SPACE_def)
  have "split [SPACE] ([] @ SPACE # replicate 3500 97) = [] # split [SPACE] (replicate 3500 97)"
    by (rule split_char) simp
  then have w: "split [SPACE] leadingSpace = [[], replicate 3500 97]"
    using split_char_none[OF a] by (simp add: leadingSpace_def)
  have p: "split [NEWLINE, NEWLINE] leadingSpace = [leadingSpace]"
    by (rule split_no_occurrence, rule no_newline_no_break)
       (simp add: leadingSpace_def NEWLINE_def SPACE_def)
  have l: "length leadingSpace = 3501" by (simp add: leadingSpace_def)
  have t: "trim (replicate 3500 97) = replicate 3500 97"
    by (intro trim_trimmed trimmed_word letter_a)
  show ?thesis
    by (simp add: splitMessage_def l p w MAX_PAGE_LENGTH_def t)
qed

theorem splitMessage_long_word_counterexample:
  "length longWord = 3501 \<and> \<not> sublist [NEWLINE, NEWLINE] longWord
   \<and> splitMessage longWord = [longWord] \<and> \<not> pagesFit (splitMessage longWord)
   \<and> length trailingSpace = 3501 \<and> splitMessage trailingSpace = [replicate 3500 97]
   \<and> length leadingSpace = 3501 \<and> splitMessage leadingSpace = [replicate 3500 97]"
proof -
  have l: "length longWord = 3501" by (simp add: longWord_def)
  have n: "NEWLINE \<notin> set longWord" by (simp add: longWord_def NEWLINE_def)
  have s: "SPACE \<notin> set longWord" by (simp add: longWord_def SPACE_def)
  have m: "MAX_PAGE_LENGTH < length longWord" by (simp add: l MAX_PAGE_LENGTH_def)
  have t: "trim longWord = longWord"
    unfolding longWord_def by (intro trim_trimmed trimmed_word letter_a)
  have sm: "splitMessage longWord = [longWord]"
    using splitMessage_one_long_word[OF m n s] t by simp
  have ends: "length trailingSpace = 3501" "length leadingSpace = 3501"
    by (simp_all add: trailingSpace_def leadingSpace_def)
  show ?thesis
    using l no_newline_no_break[OF n] sm ends
    by (simp add: pagesFit_def MAX_PAGE_LENGTH_def splitMessage_trailingSpace
        splitMessage_leadingSpace)
qed

lemma solidWord_trim: "solidWord w \<Longrightarrow> trim w = w"
  by (rule trim_trimmed) (simp add: solidWord_def trimmed_def)

lemma solidWord_append: "solidWord a \<Longrightarrow> solidWord b \<Longrightarrow> solidWord (a @ s @ b)"
  by (simp add: solidWord_def)

lemma solidWord_join:
  "ws \<noteq> [] \<Longrightarrow> \<forall>w\<in>set ws. solidWord w \<Longrightarrow> solidWord (joinWith sep ws)"
proof (induction sep ws rule: joinWith.induct)
  case (3 sep x y ys)
  then have "solidWord (joinWith sep (y # ys))" by simp
  with 3(3) show ?case by (simp add: solidWord_append)
qed auto

lemma recon_Cons:
  assumes "pages \<noteq> []" and "t \<in> set (reconstructions s pages)"
  shows "p @ s @ t \<in> set (reconstructions s (p # pages))"
    and "p @ [NEWLINE, NEWLINE] @ t \<in> set (reconstructions s (p # pages))"
  using assms by (cases pages; auto)+

lemma recon_nonempty_pages: "t \<in> set (reconstructions s pages) \<Longrightarrow> t \<noteq> [] \<Longrightarrow> pages \<noteq> []"
  by (cases pages) auto

lemma recon_append:
  assumes "ta \<in> set (reconstructions s A)" and "tb \<in> set (reconstructions s B)"
    and "A \<noteq> []" and "B \<noteq> []"
  shows "ta @ [NEWLINE, NEWLINE] @ tb \<in> set (reconstructions s (A @ B))"
  using assms
proof (induction s A arbitrary: ta rule: reconstructions.induct)
  case (1 s) then show ?case by simp
next
  case (2 s page)
  then show ?case using recon_Cons(2)[of B tb s page] by simp
next
  case (3 s page nxt pages)
  from "3.prems"(1) obtain rest where
    rest: "rest \<in> set (reconstructions s (nxt # pages))"
    and ta: "ta = page @ s @ rest \<or> ta = page @ [NEWLINE, NEWLINE] @ rest"
    by auto
  have "rest @ [NEWLINE, NEWLINE] @ tb \<in> set (reconstructions s ((nxt # pages) @ B))"
    using "3.IH"[OF rest "3.prems"(2) _ "3.prems"(4)] by simp
  then have "page @ s @ (rest @ [NEWLINE, NEWLINE] @ tb) \<in> set (reconstructions s (page # (nxt # pages) @ B))"
    and "page @ [NEWLINE, NEWLINE] @ (rest @ [NEWLINE, NEWLINE] @ tb) \<in> set (reconstructions s (page # (nxt # pages) @ B))"
    by (auto intro: recon_Cons)
  with ta show ?case by auto
qed

lemma packWords_rejoin:
  assumes "\<forall>w\<in>set words. solidWord w"
    and "wordChunk = [] \<or> solidWord wordChunk"
    and "wordChunk \<noteq> [] \<or> words \<noteq> []"
  shows "joinWith [SPACE] (if wordChunk = [] then words else wordChunk # words)
           \<in> set (reconstructions [SPACE] (packWords words wordChunk))"
  using assms
proof (induction words arbitrary: wordChunk)
  case Nil
  then show ?case by (auto simp: solidWord_trim)
next
  case (Cons w words)
  have w: "solidWord w" using Cons.prems(1) by simp
  have ws: "\<forall>w\<in>set words. solidWord w" using Cons.prems(1) by simp
  show ?case
  proof (cases "length wordChunk + length w + 1 \<le> MAX_PAGE_LENGTH")
    case True
    let ?c = "wordChunk @ (if wordChunk \<noteq> [] then [SPACE] else []) @ w"
    have c: "?c = [] \<or> solidWord ?c"
      using w Cons.prems(2) solidWord_append[of wordChunk w "[SPACE]"] by auto
    have cne: "?c \<noteq> []" using w by (auto simp: solidWord_def)
    then have d: "?c \<noteq> [] \<or> words \<noteq> []" by simp
    have wne: "w \<noteq> []" using w by (simp add: solidWord_def)
    from Cons.IH[OF ws c d] wne
    have "joinWith [SPACE] (?c # words) \<in> set (reconstructions [SPACE] (packWords words ?c))"
      by (cases "wordChunk = []") simp_all
    moreover have "joinWith [SPACE] (?c # words)
        = joinWith [SPACE] (if wordChunk = [] then w # words else wordChunk # w # words)"
      using joinWith_merge[of "[SPACE]" wordChunk w words] by simp
    ultimately show ?thesis using True by simp
  next
    case False
    have wne: "w \<noteq> []" using w by (simp add: solidWord_def)
    have "w = [] \<or> solidWord w" using w by simp
    from Cons.IH[OF ws this] wne
    have r: "joinWith [SPACE] (w # words) \<in> set (reconstructions [SPACE] (packWords words w))"
      by simp
    have jne: "joinWith [SPACE] (w # words) \<noteq> []"
      using length_joinWith_ge_hd[of w "[SPACE]" words] wne by auto
    show ?thesis
    proof (cases "wordChunk = []")
      case True
      with False r show ?thesis by simp
    next
      case F: False
      then have t: "trim wordChunk = wordChunk" using Cons.prems(2) by (simp add: solidWord_trim)
      from recon_nonempty_pages[OF r jne] have pne: "packWords words w \<noteq> []" .
      from recon_Cons(1)[OF pne r, of wordChunk]
      show ?thesis using False F t by simp
    qed
  qed
qed

lemma packParagraphs_rejoin:
  assumes "\<forall>p\<in>set paragraphs. \<forall>w\<in>set (split [SPACE] p). solidWord w"
    and "current = [] \<or> solidWord current"
    and "current \<noteq> [] \<or> paragraphs \<noteq> []"
  shows "joinWith [NEWLINE, NEWLINE] (if current = [] then paragraphs else current # paragraphs)
           \<in> set (reconstructions [SPACE] (packParagraphs paragraphs current))"
  using assms
proof (induction paragraphs arbitrary: current)
  case Nil
  then show ?case by (auto simp: solidWord_trim)
next
  case (Cons p paragraphs)
  have pw: "\<forall>w\<in>set (split [SPACE] p). solidWord w" using Cons.prems(1) by simp
  have ps: "\<forall>p\<in>set paragraphs. \<forall>w\<in>set (split [SPACE] p). solidWord w"
    using Cons.prems(1) by simp
  have "solidWord (joinWith [SPACE] (split [SPACE] p))"
    using pw by (intro solidWord_join split_nonempty)
  then have p: "solidWord p" by (simp add: joinWith_split)
  then have pne: "p \<noteq> []" by (simp add: solidWord_def)
  show ?case
  proof (cases "length current + length p + 2 \<le> MAX_PAGE_LENGTH")
    case True
    let ?c = "current @ (if current \<noteq> [] then [NEWLINE, NEWLINE] else []) @ p"
    have c: "?c = [] \<or> solidWord ?c"
      using p Cons.prems(2) solidWord_append[of current p "[NEWLINE, NEWLINE]"] by auto
    have cne: "?c \<noteq> []" using pne by auto
    then have d: "?c \<noteq> [] \<or> paragraphs \<noteq> []" by simp
    from Cons.IH[OF ps c d] pne
    have "joinWith [NEWLINE, NEWLINE] (?c # paragraphs)
            \<in> set (reconstructions [SPACE] (packParagraphs paragraphs ?c))"
      by (cases "current = []") simp_all
    moreover have "joinWith [NEWLINE, NEWLINE] (?c # paragraphs)
        = joinWith [NEWLINE, NEWLINE]
            (if current = [] then p # paragraphs else current # p # paragraphs)"
      using joinWith_merge[of "[NEWLINE, NEWLINE]" current p paragraphs] by simp
    ultimately show ?thesis using True by simp
  next
    case False
    let ?tail = "if length p > MAX_PAGE_LENGTH
                 then packWords (split [SPACE] p) [] @ packParagraphs paragraphs []
                 else packParagraphs paragraphs p"
    let ?text = "joinWith [NEWLINE, NEWLINE] (p # paragraphs)"
    have tne: "?text \<noteq> []"
      using length_joinWith_ge_hd[of p "[NEWLINE, NEWLINE]" paragraphs] pne by auto
    have tail: "?text \<in> set (reconstructions [SPACE] ?tail)"
    proof (cases "length p > MAX_PAGE_LENGTH")
      case F2: False
      have "p = [] \<or> solidWord p" using p by simp
      from Cons.IH[OF ps this] pne F2 show ?thesis by simp
    next
      case True
      have e: "([]::jsstring) = [] \<or> solidWord []" by simp
      have "[] \<noteq> ([]::jsstring) \<or> split [SPACE] p \<noteq> []" by (simp add: split_nonempty)
      from packWords_rejoin[OF pw e this]
      have words: "p \<in> set (reconstructions [SPACE] (packWords (split [SPACE] p) []))"
        by (simp add: joinWith_split)
      from recon_nonempty_pages[OF words pne] have wne: "packWords (split [SPACE] p) [] \<noteq> []" .
      show ?thesis
      proof (cases "paragraphs = []")
        case T2: True
        with True words show ?thesis by simp
      next
        case F3: False
        then have "[] \<noteq> ([]::jsstring) \<or> paragraphs \<noteq> []" by simp
        from Cons.IH[OF ps e this]
        have r: "joinWith [NEWLINE, NEWLINE] paragraphs
                   \<in> set (reconstructions [SPACE] (packParagraphs paragraphs []))" by simp
        have "\<forall>q\<in>set paragraphs. solidWord q"
        proof
          fix q assume "q \<in> set paragraphs"
          with ps have "\<forall>w\<in>set (split [SPACE] q). solidWord w" by simp
          then have "solidWord (joinWith [SPACE] (split [SPACE] q))"
            by (intro solidWord_join split_nonempty)
          then show "solidWord q" by (simp add: joinWith_split)
        qed
        then have "solidWord (joinWith [NEWLINE, NEWLINE] paragraphs)"
          using F3 by (intro solidWord_join)
        then have rne: "joinWith [NEWLINE, NEWLINE] paragraphs \<noteq> []" by (simp add: solidWord_def)
        from recon_nonempty_pages[OF r rne] have ppne: "packParagraphs paragraphs [] \<noteq> []" .
        from recon_append[OF words r wne ppne]
        show ?thesis using True F3 by (simp add: joinWith_Cons)
      qed
    qed
    show ?thesis
    proof (cases "current = []")
      case True
      with False tail show ?thesis by simp
    next
      case F: False
      then have t: "trim current = current" using Cons.prems(2) by (simp add: solidWord_trim)
      from recon_nonempty_pages[OF tail tne] have tlne: "?tail \<noteq> []" .
      from recon_Cons(2)[OF tlne tail, of current]
      show ?thesis using False F t by simp
    qed
  qed
qed

lemma splitMessage_rejoin:
  assumes "pageBreakFree t"
  shows "t \<in> set (reconstructions [SPACE] (splitMessage t))"
proof (cases "length t \<le> MAX_PAGE_LENGTH")
  case True
  then show ?thesis by (simp add: splitMessage_def)
next
  case False
  from assms have w: "\<forall>p\<in>set (split [NEWLINE, NEWLINE] t). \<forall>w\<in>set (split [SPACE] p). solidWord w"
    by (simp add: pageBreakFree_def list_all_iff)
  have e: "([]::jsstring) = [] \<or> solidWord []" by simp
  have "[] \<noteq> ([]::jsstring) \<or> split [NEWLINE, NEWLINE] t \<noteq> []" by (simp add: split_nonempty)
  from packParagraphs_rejoin[OF w e this] False show ?thesis
    by (simp add: splitMessage_def joinWith_split split_nonempty)
qed

text \<open>
  Claim C5, as amended.  When the formatted text has no page-breaking artifacts (in
  every paragraph every word is non-empty and has no white space at its ends), joining
  the pages in order with a single space at the joins inside a paragraph and a blank
  line at the joins between paragraphs gives back the formatted text.
\<close>

theorem pagination_round_trip:
  "pageBreakFree (formatResponse text) \<Longrightarrow>
     formatResponse text \<in> set (reconstructions [SPACE] (splitMessage (formatResponse text)))"
  by (rule splitMessage_rejoin)

lemma twoLongWords_plain: "formatResponse twoLongWords = twoLongWords"
proof (rule formatResponse_plain)
  show "trimmed twoLongWords"
    unfolding twoLongWords_def by (rule trimmed_letters) simp_all
  show "SPARKLES \<notin> set twoLongWords" by (simp add: twoLongWords_def SPARKLES_def SPACE_def)
  show "HEAVY_RULE \<notin> set twoLongWords" by (simp add: twoLongWords_def HEAVY_RULE_def SPACE_def)
  show "\<not> sublist [NEWLINE, NEWLINE, NEWLINE] twoLongWords"
    by (rule no_newline_no_triple) (simp add: twoLongWords_def NEWLINE_def SPACE_def)
qed

lemma split_twoLongWords: "split [SPACE] twoLongWords = [replicate 3000 97, replicate 3000 98]"
proof -
  have a: "SPACE \<notin> set (replicate 3000 (97::nat))" by (simp add: SPACE_def)
  have b: "SPACE \<notin> set (replicate 3000 (98::nat))" by (simp add: SPACE_def)
  show ?thesis
    unfolding twoLongWords_def using split_char[OF a, of "replicate 3000 98"] split_char_none[OF b]
    by simp
qed

lemma paragraphs_twoLongWords: "split [NEWLINE, NEWLINE] twoLongWords = [twoLongWords]"
  by (rule split_no_occurrence, rule no_newline_no_break)
     (simp add: twoLongWords_def NEWLINE_def SPACE_def)

lemma pageBreakFree_twoLongWords: "pageBreakFree twoLongWords"
  by (simp add: pageBreakFree_def paragraphs_twoLongWords split_twoLongWords solidWord_def
      letter_a letter_b)

lemma splitMessage_twoLongWords:
  "splitMessage twoLongWords = [replicate 3000 97, replicate 3000 98]"
proof -
  have l: "length twoLongWords = 6001" by (simp add: twoLongWords_def)
  have ta: "trim (replicate 3000 97) = replicate 3000 97"
    by (intro trim_trimmed trimmed_word letter_a)
  have tb: "trim (replicate 3000 98) = replicate 3000 98"
    by (intro trim_trimmed trimmed_word letter_b)
  show ?thesis
    by (simp add: splitMessage_def l paragraphs_twoLongWords split_twoLongWords
        MAX_PAGE_LENGTH_def ta tb)
qed

theorem pagination_round_trip_witness:
  "pageBreakFree (formatResponse twoLongWords)
   \<and> splitMessage (formatResponse twoLongWords) = [replicate 3000 97, replicate 3000 98]
   \<and> formatResponse twoLongWords
        \<in> set (reconstructions [SPACE] (splitMessage (formatResponse twoLongWords)))"
proof -
  have h: "pageBreakFree (formatResponse twoLongWords)"
    by (simp add: twoLongWords_plain pageBreakFree_twoLongWords)
  from pagination_round_trip[OF h] h show ?thesis
    by (simp add: twoLongWords_plain splitMessage_twoLongWords)
qed

text \<open>The claim as stated joins the pages of a split paragraph without a separator.
  The splitter drops the space at which it cuts, so two words of 3000 letters come back
  as two pages, and neither their concatenation nor their join by a blank line is the
  text.\<close>

theorem pagination_no_separator_counterexample:
  "pageBreakFree (formatResponse twoLongWords)
   \<and> splitMessage (formatResponse twoLongWords) = [replicate 3000 97, replicate 3000 98]
   \<and> formatResponse twoLongWords
        \<notin> set (reconstructions [] (splitMessage (formatResponse twoLongWords)))"
proof -
  have l: "length twoLongWords = 6001" by (simp add: twoLongWords_def)
  have a: "twoLongWords \<noteq> replicate 3000 97 @ replicate 3000 98"
  proof
    assume "twoLongWords = replicate 3000 97 @ replicate 3000 98"
    then have "length twoLongWords = length (replicate 3000 (97::nat) @ replicate 3000 98)"
      by (simp only:)
    with l show False by simp
  qed
  have b: "twoLongWords \<noteq> replicate 3000 97 @ [NEWLINE, NEWLINE] @ replicate 3000 98"
  proof
    assume "twoLongWords = replicate 3000 97 @ [NEWLINE, NEWLINE] @ replicate 3000 98"
    then have "length twoLongWords
                 = length (replicate 3000 (97::nat) @ [NEWLINE, NEWLINE] @ replicate 3000 98)"
      by (simp only:)
    with l show False by simp
  qed
  show ?thesis
    using a b
    by (simp add: twoLongWords_plain pageBreakFree_twoLongWords splitMessage_twoLongWords)
qed

subsection \<open>The caches return what the methods compute\<close>

lemma list_all_update:
  "list_all P al \<Longrightarrow> P (k, v) \<Longrightarrow> list_all P (AList.update k v al)"
  by (induction al) auto

lemma list_all_map_of:
  "list_all P al \<Longrightarrow> map_of al k = Some v \<Longrightarrow> P (k, v)"
  by (induction al) (auto split: if_splits)

lemma formatResponseCached_correct:
  assumes "cachesConsistent svc"
  shows "fst (formatResponseCached svc text) = formatResponse text
         \<and> cachesConsistent (snd (formatResponseCached svc text))"
proof (cases "map_of (responseCache svc) text")
  case None
  with assms show ?thesis
    by (auto simp: formatResponseCached_def cachesConsistent_def Let_def intro: list_all_update)
next
  case (Some cached)
  from assms have "list_all (\<lambda>(text, cached). cached = formatResponse text) (responseCache svc)"
    by (simp add: cachesConsistent_def)
  from list_all_map_of[OF this Some] have "cached = formatResponse text" by simp
  with Some assms show ?thesis by (simp add: formatResponseCached_def)
qed

lemma splitMessageCached_correct:
  assumes "cachesConsistent svc"
  shows "fst (splitMessageCached svc text) = splitMessage text
         \<and> cachesConsistent (snd (splitMessageCached svc text))"
proof (cases "map_of (splitCache svc) text")
  case None
  with assms show ?thesis
    by (auto simp: splitMessageCached_def cachesConsistent_def Let_def intro: list_all_update)
next
  case (Some cached)
  from assms have "list_all (\<lambda>(text, cached). cached = splitMessage text) (splitCache svc)"
    by (simp add: cachesConsistent_def)
  from list_all_map_of[OF this Some] have "cached = splitMessage text" by simp
  with Some assms show ?thesis by (simp add: splitMessageCached_def)
qed

lemma cachesConsistent_new: "cachesConsistent newMessageService"
  by (simp add: cachesConsistent_def newMessageService_def)

lemma cachesConsistent_clear: "cachesConsistent (clearCaches svc)"
  by (simp add: cachesConsistent_def clearCaches_def)

end
